theory Spec2Isabelle
  imports Main "HOL-Library.Signed_Division" "HOL-Library.Numeral_Type"
begin

section \<open>Prime field arithmetic (field.h)\<close>

text \<open>
  A \<open>FieldElement\<close> holds one private member \<open>value\<close> of type \<open>uint64_t\<close>. Every
  constructor and every operator reduces modulo \<open>SMALL_PRIME = 2^31 - 1\<close>, so a stored
  value is always below \<open>SMALL_PRIME\<close>; the predicate \<open>valid_fe\<close> records this class
  invariant. For such values the 64-bit sums \<open>value + other.value\<close> and
  \<open>value + SMALL_PRIME - other.value\<close> stay below \<open>2^32\<close> and the product is taken in
  \<open>__uint128_t\<close>, so no operation wraps and natural-number arithmetic is exact.
\<close>

definition SMALL_PRIME :: nat where
  "SMALL_PRIME = 2147483647"

type_synonym FieldElement = nat

definition valid_fe :: "FieldElement \<Rightarrow> bool" where
  "valid_fe v = (v < SMALL_PRIME)"

definition FieldElement :: "nat \<Rightarrow> FieldElement" where
  "FieldElement val = val mod SMALL_PRIME"

definition fe_add :: "FieldElement \<Rightarrow> FieldElement \<Rightarrow> FieldElement" where
  "fe_add a b = FieldElement ((a + b) mod SMALL_PRIME)"

definition fe_sub :: "FieldElement \<Rightarrow> FieldElement \<Rightarrow> FieldElement" where
  "fe_sub a b = FieldElement ((a + SMALL_PRIME - b) mod SMALL_PRIME)"

definition fe_mul :: "FieldElement \<Rightarrow> FieldElement \<Rightarrow> FieldElement" where
  "fe_mul a b = FieldElement ((a * b) mod SMALL_PRIME)"

text \<open>
  The exceptions of the repository are all \<open>std::runtime_error\<close>s told apart by their
  message. The specification groups them: the two messages of \<open>inverse\<close> are its
  DivisionError, the message of \<open>setConstraint\<close> is its RangeError, the message of
  \<open>interpolate\<close> is its LengthMismatchError. \<open>Out_of_bounds_access\<close> stands for an
  unchecked \<open>operator[]\<close> outside a vector, which C++ leaves undefined: the model makes
  no promise about such a call beyond naming it.
\<close>

datatype error =
    Cannot_invert_zero
  | Value_is_not_invertible
  | Constraint_index_out_of_bounds
  | Sizes_must_match
  | Out_of_bounds_access

definition DivisionError :: "error \<Rightarrow> bool" where
  "DivisionError e = (e = Cannot_invert_zero \<or> e = Value_is_not_invertible)"

definition RangeError :: "error \<Rightarrow> bool" where
  "RangeError e = (e = Constraint_index_out_of_bounds)"

definition LengthMismatchError :: "error \<Rightarrow> bool" where
  "LengthMismatchError e = (e = Sizes_must_match)"

text \<open>
  The loop of \<open>inverse\<close> (extended Euclid) runs on \<open>int64_t\<close>; \<open>r / newr\<close> is C++
  division, which truncates towards zero (\<open>sdiv\<close>). Started from \<open>r = SMALL_PRIME\<close>
  and \<open>newr = value\<close>, every intermediate value is bounded by \<open>SMALL_PRIME\<close> in
  absolute value (see \<open>inverse_loop_invariant\<close> below), far inside the 64-bit range.
\<close>

function inverse_loop :: "int \<Rightarrow> int \<Rightarrow> int \<Rightarrow> int \<Rightarrow> int \<times> int" where
  "inverse_loop t newt r newr =
     (if newr \<noteq> 0
      then (let quotient = r sdiv newr
            in inverse_loop newt (t - quotient * newt) newr (r - quotient * newr))
      else (t, r))"
  by pat_completeness auto
termination
proof (relation "measure (\<lambda>(t, newt, r, newr). nat \<bar>newr\<bar>)")
  show "wf (measure (\<lambda>(t, newt, r, newr). nat \<bar>newr\<bar>))"
    by simp
next
  fix t newt r newr quotient :: int
  assume nz: "newr \<noteq> 0" and q: "quotient = r sdiv newr"
  have "r - quotient * newr = r smod newr"
    unfolding q by (rule minus_sdiv_mult_eq_smod)
  moreover have "\<bar>r smod newr\<bar> < \<bar>newr\<bar>"
    using smod_int_range [of newr r] nz by auto
  ultimately show "((newt, t - quotient * newt, newr, r - quotient * newr), (t, newt, r, newr))
      \<in> measure (\<lambda>(t, newt, r, newr). nat \<bar>newr\<bar>)"
    using nz by simp
qed

declare inverse_loop.simps [simp del]

definition fe_inverse :: "FieldElement \<Rightarrow> error + FieldElement" where
  "fe_inverse v =
     (if v = 0 then Inl Cannot_invert_zero
      else (case inverse_loop 0 1 (int SMALL_PRIME) (int v) of
              (t, r) \<Rightarrow>
                if r > 1 then Inl Value_is_not_invertible
                else Inr (FieldElement (nat (if t < 0 then t + int SMALL_PRIME else t)))))"

definition fe_div :: "FieldElement \<Rightarrow> FieldElement \<Rightarrow> error + FieldElement" where
  "fe_div a b = (case fe_inverse b of Inl e \<Rightarrow> Inl e | Inr i \<Rightarrow> Inr (fe_mul a i))"

function power_loop :: "FieldElement \<Rightarrow> FieldElement \<Rightarrow> nat \<Rightarrow> FieldElement" where
  "power_loop result base exp =
     (if exp > 0
      then power_loop (if odd exp then fe_mul result base else result)
                      (fe_mul base base) (exp div 2)
      else result)"
  by pat_completeness auto
termination
  by (relation "measure (\<lambda>(result, base, exp). exp)") auto

declare power_loop.simps [simp del]

definition fe_power :: "FieldElement \<Rightarrow> nat \<Rightarrow> FieldElement" where
  "fe_power a exp = (if exp = 0 then FieldElement 1 else power_loop (FieldElement 1) a exp)"

text \<open>
  The ring of integers modulo \<open>2^31 - 1\<close>, the carrier of the algebraic proofs, the
  residue class of a field element, and the polynomial function \<open>\<Sum> c\<^sub>i X\<^sup>i\<close> of a
  coefficient list over that ring.
\<close>

type_synonym Fp = "2147483647"

definition to_Fp :: "FieldElement \<Rightarrow> Fp" where
  "to_Fp v = of_nat v"

fun poly_fun :: "Fp list \<Rightarrow> Fp \<Rightarrow> Fp" where
  "poly_fun [] X = 0"
| "poly_fun (c # cs) X = c + X * poly_fun cs X"


section \<open>Curve group (elliptic\_curve.h)\<close>

text \<open>
  An \<open>ECPoint\<close> has the members \<open>x\<close>, \<open>y\<close> and \<open>is_infinity\<close>. The default
  constructor builds the point at infinity \<open>(0, 0, true)\<close>; the two-argument
  constructor stores the coordinates with \<open>is_infinity = false\<close> and only prints a
  warning when they do not satisfy the curve equation (\<open>on_curve\<close> is that check).
  The curve parameters \<open>a\<close> and \<open>b\<close> are static members changed by
  \<open>setCurveParams\<close>; the model passes their current value explicitly.
\<close>

datatype ECPoint = ECPoint (getX: FieldElement) (getY: FieldElement) (isInfinity: bool)

datatype CurveParams = CurveParams (param_a: FieldElement) (param_b: FieldElement)

definition infinity :: ECPoint where
  "infinity = ECPoint (FieldElement 0) (FieldElement 0) True"

definition on_curve :: "CurveParams \<Rightarrow> ECPoint \<Rightarrow> bool" where
  "on_curve cp pt =
     (fe_mul (getY pt) (getY pt) =
      fe_add (fe_add (fe_mul (fe_mul (getX pt) (getX pt)) (getX pt))
                     (fe_mul (param_a cp) (getX pt)))
             (param_b cp))"

definition ec_add :: "CurveParams \<Rightarrow> ECPoint \<Rightarrow> ECPoint \<Rightarrow> error + ECPoint" where
  "ec_add cp p other =
     (if isInfinity p then Inr other
      else if isInfinity other then Inr p
      else if getX p = getX other \<and> getY p \<noteq> getY other then Inr infinity
      else
        (case (if getX p = getX other \<and> getY p = getY other
               then fe_div (fe_add (fe_mul (fe_mul (getX p) (getX p)) (FieldElement 3)) (param_a cp))
                           (fe_mul (getY p) (FieldElement 2))
               else fe_div (fe_sub (getY other) (getY p)) (fe_sub (getX other) (getX p))) of
           Inl e \<Rightarrow> Inl e
         | Inr lambda \<Rightarrow>
             (let x_new = fe_sub (fe_sub (fe_mul lambda lambda) (getX p)) (getX other);
                  y_new = fe_sub (fe_mul lambda (fe_sub (getX p) x_new)) (getY p)
              in Inr (ECPoint x_new y_new False))))"

text \<open>
  Scalar multiplication takes a \<open>uint64_t\<close>. The loop doubles \<open>base\<close> in every
  iteration, also in the last one, where the doubled point is never used.
\<close>

function ec_mul_loop :: "CurveParams \<Rightarrow> ECPoint \<Rightarrow> ECPoint \<Rightarrow> nat \<Rightarrow> error + ECPoint" where
  "ec_mul_loop cp result base scalar =
     (if scalar > 0
      then (case (if odd scalar then ec_add cp result base else Inr result) of
              Inl e \<Rightarrow> Inl e
            | Inr result' \<Rightarrow>
                (case ec_add cp base base of
                   Inl e \<Rightarrow> Inl e
                 | Inr base' \<Rightarrow> ec_mul_loop cp result' base' (scalar div 2)))
      else Inr result)"
  by pat_completeness auto
termination
  by (relation "measure (\<lambda>(cp, result, base, scalar). scalar)") auto

declare ec_mul_loop.simps [simp del]

definition ec_mul :: "CurveParams \<Rightarrow> ECPoint \<Rightarrow> nat \<Rightarrow> error + ECPoint" where
  "ec_mul cp p scalar =
     (if scalar = 0 \<or> isInfinity p then Inr infinity
      else ec_mul_loop cp infinity p scalar)"

section \<open>Rank-1 constraint system (r1cs.h)\<close>

text \<open>
  \<open>num_variables\<close> and \<open>num_constraints\<close> are \<open>int\<close>s. The members are read with
  the unchecked \<open>operator[]\<close>; \<open>wf_R1CS\<close> is the invariant of the data model (each
  matrix has \<open>num_constraints\<close> rows of \<open>num_variables\<close> field elements) under which
  every read of \<open>verify\<close> and \<open>fromR1CS\<close> is in range.
\<close>

record R1CS =
  r1cs_A :: "FieldElement list list"
  r1cs_B :: "FieldElement list list"
  r1cs_C :: "FieldElement list list"
  r1cs_num_variables :: int
  r1cs_num_constraints :: int

definition wf_matrix :: "int \<Rightarrow> int \<Rightarrow> FieldElement list list \<Rightarrow> bool" where
  "wf_matrix rows cols M =
     (int (length M) = rows \<and>
      (\<forall>row \<in> set M. int (length row) = cols \<and> (\<forall>v \<in> set row. valid_fe v)))"

definition wf_R1CS :: "R1CS \<Rightarrow> bool" where
  "wf_R1CS r =
     (wf_matrix (r1cs_num_constraints r) (r1cs_num_variables r) (r1cs_A r) \<and>
      wf_matrix (r1cs_num_constraints r) (r1cs_num_variables r) (r1cs_B r) \<and>
      wf_matrix (r1cs_num_constraints r) (r1cs_num_variables r) (r1cs_C r))"

text \<open>
  \<open>setConstraint\<close> only checks \<open>idx >= num_constraints\<close>. A negative \<open>idx\<close>, or a
  matrix shorter than \<open>num_constraints\<close>, reaches \<open>A[idx] = a\<close> outside the vector.
\<close>

definition setConstraint ::
  "R1CS \<Rightarrow> int \<Rightarrow> FieldElement list \<Rightarrow> FieldElement list \<Rightarrow> FieldElement list \<Rightarrow> error + R1CS" where
  "setConstraint r idx a b c =
     (if idx \<ge> r1cs_num_constraints r then Inl Constraint_index_out_of_bounds
      else if idx < 0 \<or> nat idx \<ge> length (r1cs_A r) \<or> nat idx \<ge> length (r1cs_B r)
                \<or> nat idx \<ge> length (r1cs_C r) then Inl Out_of_bounds_access
      else Inr (r\<lparr>r1cs_A := (r1cs_A r)[nat idx := a],
                  r1cs_B := (r1cs_B r)[nat idx := b],
                  r1cs_C := (r1cs_C r)[nat idx := c]\<rparr>))"

text \<open>
  The constructor \<open>R1CS(vars, constraints)\<close> fills the three matrices with zeros, and
  the constraint system of the example \<open>x * x = out\<close> over the variables
  \<open>[one, x, out]\<close>, as \<open>simple_example.cpp\<close> builds it.
\<close>

definition new_R1CS :: "int \<Rightarrow> int \<Rightarrow> R1CS" where
  "new_R1CS vars constraints =
     \<lparr>r1cs_A = replicate (nat constraints) (replicate (nat vars) (FieldElement 0)),
      r1cs_B = replicate (nat constraints) (replicate (nat vars) (FieldElement 0)),
      r1cs_C = replicate (nat constraints) (replicate (nat vars) (FieldElement 0)),
      r1cs_num_variables = vars, r1cs_num_constraints = constraints\<rparr>"

definition simple_example :: R1CS where
  "simple_example =
     \<lparr>r1cs_A = [[0, 1, 0]], r1cs_B = [[0, 1, 0]], r1cs_C = [[0, 0, 1]],
      r1cs_num_variables = 3, r1cs_num_constraints = 1\<rparr>"

text \<open>The three inner loops of \<open>verify\<close>: \<open>val = val + M[i][j] * witness[j]\<close>.\<close>

definition dot_product :: "FieldElement list \<Rightarrow> FieldElement list \<Rightarrow> int \<Rightarrow> FieldElement" where
  "dot_product row witness num_vars =
     fold (\<lambda>j val. fe_add val (fe_mul (row ! j) (witness ! j))) [0..<nat num_vars] (FieldElement 0)"

definition row_holds :: "R1CS \<Rightarrow> FieldElement list \<Rightarrow> nat \<Rightarrow> bool" where
  "row_holds r witness i =
     (fe_mul (dot_product (r1cs_A r ! i) witness (r1cs_num_variables r))
             (dot_product (r1cs_B r ! i) witness (r1cs_num_variables r))
      = dot_product (r1cs_C r ! i) witness (r1cs_num_variables r))"

text \<open>
  The condition of the specification on row \<open>i\<close>, in its words:
  \<open>(A_i\<cdot>witness) * (B_i\<cdot>witness) = (C_i\<cdot>witness)\<close>, the dot products being sums of
  products in the field (that is, modulo \<open>SMALL_PRIME\<close>).
\<close>

definition spec_dot :: "FieldElement list \<Rightarrow> FieldElement list \<Rightarrow> nat \<Rightarrow> nat" where
  "spec_dot row witness n = (\<Sum>j<n. row ! j * witness ! j) mod SMALL_PRIME"

definition spec_row_satisfied :: "R1CS \<Rightarrow> FieldElement list \<Rightarrow> nat \<Rightarrow> bool" where
  "spec_row_satisfied r witness i =
     ((spec_dot (r1cs_A r ! i) witness (nat (r1cs_num_variables r)) *
       spec_dot (r1cs_B r ! i) witness (nat (r1cs_num_variables r))) mod SMALL_PRIME
      = spec_dot (r1cs_C r ! i) witness (nat (r1cs_num_variables r)))"

text \<open>
  \<open>verify\<close> returns its boolean together with the rows it has examined, in order:
  these are the rows for which it prints a \<open>Constraint i: ...\<close> line.
\<close>

fun verify_loop :: "R1CS \<Rightarrow> FieldElement list \<Rightarrow> nat list \<Rightarrow> nat list \<Rightarrow> bool \<times> nat list" where
  "verify_loop r witness [] examined = (True, examined)"
| "verify_loop r witness (i # rest) examined =
     (if \<not> row_holds r witness i then (False, examined @ [i])
      else verify_loop r witness rest (examined @ [i]))"

definition r1cs_verify :: "R1CS \<Rightarrow> FieldElement list \<Rightarrow> bool \<times> nat list" where
  "r1cs_verify r witness =
     (if int (length witness) \<noteq> r1cs_num_variables r then (False, [])
      else verify_loop r witness [0..<nat (r1cs_num_constraints r)] [])"

section \<open>Polynomials and Lagrange interpolation (qap.h)\<close>

text \<open>A \<open>Polynomial\<close> is its coefficient vector; \<open>coefficients[i]\<close> belongs to \<open>x^i\<close>.\<close>

type_synonym Polynomial = "FieldElement list"

definition evaluate :: "Polynomial \<Rightarrow> FieldElement \<Rightarrow> FieldElement" where
  "evaluate p x =
     fst (fold (\<lambda>coeff (result, x_power). (fe_add result (fe_mul coeff x_power), fe_mul x_power x))
               p (FieldElement 0, FieldElement 1))"

definition poly_add :: "Polynomial \<Rightarrow> Polynomial \<Rightarrow> Polynomial" where
  "poly_add p other =
     fold (\<lambda>i rc. rc[i := fe_add (rc ! i) (other ! i)]) [0..<length other]
       (fold (\<lambda>i rc. rc[i := fe_add (rc ! i) (p ! i)]) [0..<length p]
          (replicate (max (length p) (length other)) (FieldElement 0)))"

definition poly_mul :: "Polynomial \<Rightarrow> Polynomial \<Rightarrow> Polynomial" where
  "poly_mul p other =
     (if p = [] \<or> other = [] then []
      else fold (\<lambda>i rc. fold (\<lambda>j rc. rc[i + j := fe_add (rc ! (i + j)) (fe_mul (p ! i) (other ! j))])
                              [0..<length other] rc)
                [0..<length p]
                (replicate (length p + length other - 1) (FieldElement 0)))"

definition poly_scale :: "Polynomial \<Rightarrow> FieldElement \<Rightarrow> Polynomial" where
  "poly_scale p scalar =
     fold (\<lambda>i rc. rc[i := fe_mul (p ! i) scalar]) [0..<length p]
          (replicate (length p) (FieldElement 0))"

fun basis_loop :: "nat \<Rightarrow> FieldElement list \<Rightarrow> nat list \<Rightarrow> Polynomial \<Rightarrow> error + Polynomial" where
  "basis_loop j x_values [] result = Inr result"
| "basis_loop j x_values (i # rest) result =
     (if i = j then basis_loop j x_values rest result
      else (case fe_div (FieldElement 1) (fe_sub (x_values ! j) (x_values ! i)) of
              Inl e \<Rightarrow> Inl e
            | Inr c \<Rightarrow>
                basis_loop j x_values rest
                  (poly_scale (poly_mul result [fe_sub (FieldElement 0) (x_values ! i), FieldElement 1]) c)))"

definition basisPolynomial :: "nat \<Rightarrow> FieldElement list \<Rightarrow> error + Polynomial" where
  "basisPolynomial j x_values = basis_loop j x_values [0..<length x_values] [FieldElement 1]"

fun interpolate_loop ::
  "FieldElement list \<Rightarrow> FieldElement list \<Rightarrow> nat list \<Rightarrow> Polynomial \<Rightarrow> error + Polynomial" where
  "interpolate_loop x_values y_values [] result = Inr result"
| "interpolate_loop x_values y_values (j # rest) result =
     (case basisPolynomial j x_values of
        Inl e \<Rightarrow> Inl e
      | Inr basis \<Rightarrow>
          interpolate_loop x_values y_values rest
            (poly_add result (poly_scale basis (y_values ! j))))"

definition interpolate :: "FieldElement list \<Rightarrow> FieldElement list \<Rightarrow> error + Polynomial" where
  "interpolate x_values y_values =
     (if length x_values \<noteq> length y_values then Inl Sizes_must_match
      else interpolate_loop x_values y_values [0..<length x_values] [FieldElement 0])"


section \<open>QAP transform (qap.h)\<close>

record QAP =
  qap_A_polys :: "Polynomial list"
  qap_B_polys :: "Polynomial list"
  qap_C_polys :: "Polynomial list"
  qap_Z :: Polynomial
  qap_num_variables :: int

text \<open>The evaluation points \<open>FieldElement(i + 1)\<close> for \<open>i = 0, ..., num_constraints - 1\<close>.\<close>

definition evaluation_points :: "int \<Rightarrow> FieldElement list" where
  "evaluation_points num_constraints =
     map (\<lambda>i. FieldElement (i + 1)) [0..<nat num_constraints]"

text \<open>The column of variable \<open>var\<close>: \<open>M[constraint][var]\<close> for every constraint.\<close>

definition column :: "FieldElement list list \<Rightarrow> int \<Rightarrow> nat \<Rightarrow> FieldElement list" where
  "column M num_constraints var =
     map (\<lambda>constraint. M ! constraint ! var) [0..<nat num_constraints]"

fun fromR1CS_loop :: "R1CS \<Rightarrow> FieldElement list \<Rightarrow> nat list \<Rightarrow> QAP \<Rightarrow> error + QAP" where
  "fromR1CS_loop r x_values [] qap = Inr qap"
| "fromR1CS_loop r x_values (var # rest) qap =
     (case interpolate x_values (column (r1cs_A r) (r1cs_num_constraints r) var) of
        Inl e \<Rightarrow> Inl e
      | Inr a_poly \<Rightarrow>
     (case interpolate x_values (column (r1cs_B r) (r1cs_num_constraints r) var) of
        Inl e \<Rightarrow> Inl e
      | Inr b_poly \<Rightarrow>
     (case interpolate x_values (column (r1cs_C r) (r1cs_num_constraints r) var) of
        Inl e \<Rightarrow> Inl e
      | Inr c_poly \<Rightarrow>
          fromR1CS_loop r x_values rest
            (qap\<lparr>qap_A_polys := qap_A_polys qap @ [a_poly],
                  qap_B_polys := qap_B_polys qap @ [b_poly],
                  qap_C_polys := qap_C_polys qap @ [c_poly]\<rparr>))))"

definition target_polynomial :: "FieldElement list \<Rightarrow> Polynomial" where
  "target_polynomial x_values =
     fold (\<lambda>x Z. poly_mul Z [fe_sub (FieldElement 0) x, FieldElement 1]) x_values [FieldElement 1]"

definition fromR1CS :: "R1CS \<Rightarrow> error + QAP" where
  "fromR1CS r =
     (let x_values = evaluation_points (r1cs_num_constraints r) in
      case fromR1CS_loop r x_values [0..<nat (r1cs_num_variables r)]
             \<lparr>qap_A_polys = [], qap_B_polys = [], qap_C_polys = [], qap_Z = [],
              qap_num_variables = r1cs_num_variables r\<rparr> of
        Inl e \<Rightarrow> Inl e
      | Inr qap \<Rightarrow> Inr (qap\<lparr>qap_Z := target_polynomial x_values\<rparr>))"

definition computePolynomials ::
  "QAP \<Rightarrow> FieldElement list \<Rightarrow> Polynomial \<times> Polynomial \<times> Polynomial" where
  "computePolynomials qap witness =
     fold (\<lambda>i (A_x, B_x, C_x).
             (poly_add A_x (poly_scale (qap_A_polys qap ! i) (witness ! i)),
              poly_add B_x (poly_scale (qap_B_polys qap ! i) (witness ! i)),
              poly_add C_x (poly_scale (qap_C_polys qap ! i) (witness ! i))))
          [0..<nat (qap_num_variables qap)]
          ([FieldElement 0], [FieldElement 0], [FieldElement 0])"

section \<open>Protocol (zksnark.h)\<close>

record ProvingKey =
  pk_A_query :: "ECPoint list"
  pk_B_query :: "ECPoint list"
  pk_C_query :: "ECPoint list"
  pk_alpha :: ECPoint
  pk_beta :: ECPoint
  pk_delta :: ECPoint
  pk_Z_query :: "ECPoint list"

record VerificationKey =
  vk_alpha :: ECPoint
  vk_beta :: ECPoint
  vk_gamma :: ECPoint
  vk_delta :: ECPoint
  vk_IC :: "ECPoint list"

record Proof =
  proof_A :: ECPoint
  proof_B :: ECPoint
  proof_C :: ECPoint

text \<open>The keys as their default constructors leave them.\<close>

definition new_ProvingKey :: ProvingKey where
  "new_ProvingKey =
     \<lparr>pk_A_query = [], pk_B_query = [], pk_C_query = [],
      pk_alpha = infinity, pk_beta = infinity, pk_delta = infinity, pk_Z_query = []\<rparr>"

definition new_VerificationKey :: VerificationKey where
  "new_VerificationKey =
     \<lparr>vk_alpha = infinity, vk_beta = infinity, vk_gamma = infinity, vk_delta = infinity,
      vk_IC = []\<rparr>"

text \<open>
  \<open>setup\<close> and \<open>prove\<close> call \<open>setCurveParams(0, 7)\<close> and build the generator
  \<open>G = (2, 1234567)\<close>.
\<close>

definition protocol_curve :: CurveParams where
  "protocol_curve = CurveParams (FieldElement 0) (FieldElement 7)"

definition G :: ECPoint where
  "G = ECPoint (FieldElement 2) (FieldElement 1234567) False"

definition bind_err :: "error + 'a \<Rightarrow> ('a \<Rightarrow> error + 'b) \<Rightarrow> error + 'b" where
  "bind_err m f = (case m of Inl e \<Rightarrow> Inl e | Inr v \<Rightarrow> f v)"

fun setup_queries :: "QAP \<Rightarrow> nat \<Rightarrow> nat list \<Rightarrow> ProvingKey \<Rightarrow> error + ProvingKey" where
  "setup_queries qap tau [] pk = Inr pk"
| "setup_queries qap tau (i # rest) pk =
     (let tau_fe = FieldElement tau;
          a_val = evaluate (qap_A_polys qap ! i) tau_fe;
          b_val = evaluate (qap_B_polys qap ! i) tau_fe;
          c_val = evaluate (qap_C_polys qap ! i) tau_fe
      in case ec_mul protocol_curve G a_val of
           Inl e \<Rightarrow> Inl e
         | Inr qa \<Rightarrow>
        (case ec_mul protocol_curve G b_val of
           Inl e \<Rightarrow> Inl e
         | Inr qb \<Rightarrow>
        (case ec_mul protocol_curve G c_val of
           Inl e \<Rightarrow> Inl e
         | Inr qc \<Rightarrow>
             setup_queries qap tau rest
               (pk\<lparr>pk_A_query := pk_A_query pk @ [qa],
                    pk_B_query := pk_B_query pk @ [qb],
                    pk_C_query := pk_C_query pk @ [qc]\<rparr>))))"

text \<open>The loop \<open>for (int i = 0; i <= num_public_inputs; i++) vk.IC.push_back(G * (i + 1))\<close>.\<close>

fun setup_IC :: "int list \<Rightarrow> ECPoint list \<Rightarrow> error + ECPoint list" where
  "setup_IC [] IC = Inr IC"
| "setup_IC (i # rest) IC =
     (case ec_mul protocol_curve G (nat (i + 1)) of
        Inl e \<Rightarrow> Inl e
      | Inr pt \<Rightarrow> setup_IC rest (IC @ [pt]))"

text \<open>
  \<open>zkSNARK::setup\<close> writes into the keys \<open>pk\<close> and \<open>vk\<close> it receives by reference and draws
  five scalars from \<open>randomScalar()\<close>, which are parameters here.
\<close>

definition zk_setup ::
  "QAP \<Rightarrow> R1CS \<Rightarrow> ProvingKey \<Rightarrow> VerificationKey \<Rightarrow> int
     \<Rightarrow> nat \<Rightarrow> nat \<Rightarrow> nat \<Rightarrow> nat \<Rightarrow> nat \<Rightarrow> error + (ProvingKey \<times> VerificationKey)" where
  "zk_setup qap r1cs pk vk num_public_inputs tau alpha_scalar beta_scalar gamma_scalar delta_scalar =
     bind_err (setup_queries qap tau [0..<nat (qap_num_variables qap)] pk) (\<lambda>pk1.
     bind_err (ec_mul protocol_curve G alpha_scalar) (\<lambda>pk_a.
     bind_err (ec_mul protocol_curve G beta_scalar) (\<lambda>pk_b.
     bind_err (ec_mul protocol_curve G delta_scalar) (\<lambda>pk_d.
     bind_err (ec_mul protocol_curve G alpha_scalar) (\<lambda>vk_a.
     bind_err (ec_mul protocol_curve G beta_scalar) (\<lambda>vk_b.
     bind_err (ec_mul protocol_curve G gamma_scalar) (\<lambda>vk_g.
     bind_err (ec_mul protocol_curve G delta_scalar) (\<lambda>vk_d.
     bind_err (setup_IC [0..num_public_inputs] (vk_IC vk)) (\<lambda>IC.
       Inr (pk1\<lparr>pk_alpha := pk_a, pk_beta := pk_b, pk_delta := pk_d\<rparr>,
            vk\<lparr>vk_alpha := vk_a, vk_beta := vk_b, vk_gamma := vk_g, vk_delta := vk_d,
               vk_IC := IC\<rparr>))))))))))"

text \<open>
  The accumulation loops of \<open>prove\<close>:
  \<open>if (i < query.size()) acc = acc + query[i] * witness[i].getValue()\<close>.
\<close>

fun accumulate ::
  "ECPoint list \<Rightarrow> FieldElement list \<Rightarrow> nat list \<Rightarrow> ECPoint \<Rightarrow> error + ECPoint" where
  "accumulate query witness [] acc = Inr acc"
| "accumulate query witness (i # rest) acc =
     (if i < length query
      then (case ec_mul protocol_curve (query ! i) (witness ! i) of
              Inl e \<Rightarrow> Inl e
            | Inr scaled \<Rightarrow>
                (case ec_add protocol_curve acc scaled of
                   Inl e \<Rightarrow> Inl e
                 | Inr acc' \<Rightarrow> accumulate query witness rest acc'))
      else accumulate query witness rest acc)"

text \<open>
  \<open>prove\<close> first calls \<open>computePolynomials\<close>, whose result it only prints, and draws
  the blinding scalars \<open>r\<close> and \<open>s\<close>, parameters here; \<open>r * s\<close> is a \<open>uint64_t\<close>
  product.
\<close>

definition zk_prove ::
  "QAP \<Rightarrow> ProvingKey \<Rightarrow> FieldElement list \<Rightarrow> FieldElement list \<Rightarrow> nat \<Rightarrow> nat \<Rightarrow> error + Proof" where
  "zk_prove qap pk witness public_inputs r s =
     bind_err (accumulate (pk_A_query pk) witness [0..<length witness] infinity) (\<lambda>A0.
     bind_err (ec_mul protocol_curve (pk_alpha pk) r) (\<lambda>ra.
     bind_err (ec_add protocol_curve A0 ra) (\<lambda>A.
     bind_err (accumulate (pk_B_query pk) witness [0..<length witness] infinity) (\<lambda>B0.
     bind_err (ec_mul protocol_curve (pk_beta pk) s) (\<lambda>sb.
     bind_err (ec_add protocol_curve B0 sb) (\<lambda>B.
     bind_err (accumulate (pk_C_query pk) witness [0..<length witness] infinity) (\<lambda>C0.
     bind_err (ec_mul protocol_curve (pk_delta pk) ((r * s) mod 2 ^ 64)) (\<lambda>rsd.
     bind_err (ec_add protocol_curve C0 rsd) (\<lambda>C.
       Inr \<lparr>proof_A = A, proof_B = B, proof_C = C\<rparr>)))))))))"

text \<open>
  \<open>verify\<close> does not set the curve parameters: the accumulation of \<open>vk_x\<close> runs with
  whatever parameters are current, the argument \<open>cp\<close>.
\<close>

fun fold_public_inputs ::
  "CurveParams \<Rightarrow> ECPoint list \<Rightarrow> FieldElement list \<Rightarrow> nat list \<Rightarrow> ECPoint \<Rightarrow> error + ECPoint" where
  "fold_public_inputs cp IC public_inputs [] vk_x = Inr vk_x"
| "fold_public_inputs cp IC public_inputs (i # rest) vk_x =
     (if i + 1 < length IC
      then (case ec_mul cp (IC ! (i + 1)) (public_inputs ! i) of
              Inl e \<Rightarrow> Inl e
            | Inr scaled \<Rightarrow>
                (case ec_add cp vk_x scaled of
                   Inl e \<Rightarrow> Inl e
                 | Inr vk_x' \<Rightarrow> fold_public_inputs cp IC public_inputs rest vk_x'))
      else fold_public_inputs cp IC public_inputs rest vk_x)"

definition zk_verify ::
  "CurveParams \<Rightarrow> VerificationKey \<Rightarrow> Proof \<Rightarrow> FieldElement list \<Rightarrow> error + bool" where
  "zk_verify cp vk prf public_inputs =
     bind_err (fold_public_inputs cp (vk_IC vk) public_inputs [0..<length public_inputs]
                 (if vk_IC vk \<noteq> [] then vk_IC vk ! 0 else infinity)) (\<lambda>vk_x.
       Inr (\<not> isInfinity (proof_A prf) \<and> \<not> isInfinity (proof_B prf)
            \<and> \<not> isInfinity (proof_C prf)))"


text \<open>The verification predicate: no component of the proof is the point at infinity.\<close>

definition none_at_infinity :: "Proof \<Rightarrow> bool" where
  "none_at_infinity prf =
     (\<not> isInfinity (proof_A prf) \<and> \<not> isInfinity (proof_B prf) \<and> \<not> isInfinity (proof_C prf))"

text \<open>
  The round trip of the drivers \<open>main.cpp\<close> and \<open>simple_example.cpp\<close>:
  \<open>fromR1CS\<close>, then \<open>setup\<close> on fresh keys with \<open>|pub|\<close> public inputs, then
  \<open>prove\<close>, then \<open>verify\<close>, which runs with the curve parameters \<open>prove\<close> has
  set.
\<close>

definition round_trip ::
  "R1CS \<Rightarrow> FieldElement list \<Rightarrow> FieldElement list
     \<Rightarrow> nat \<Rightarrow> nat \<Rightarrow> nat \<Rightarrow> nat \<Rightarrow> nat \<Rightarrow> nat \<Rightarrow> nat \<Rightarrow> error + bool" where
  "round_trip r1cs witness pub tau alpha_scalar beta_scalar gamma_scalar delta_scalar r s =
     bind_err (fromR1CS r1cs) (\<lambda>qap.
     bind_err (zk_setup qap r1cs new_ProvingKey new_VerificationKey (int (length pub))
                 tau alpha_scalar beta_scalar gamma_scalar delta_scalar) (\<lambda>keys.
     bind_err (zk_prove qap (fst keys) witness pub r s) (\<lambda>prf.
       zk_verify protocol_curve (snd keys) prf pub)))"

text \<open>
  The values the pipeline computes for \<open>simple_example\<close> when every setup scalar is
  \<open>2\<close> and both blinding scalars are \<open>1\<close>; for the same run with \<open>alpha_scalar\<close>
  \<open>27888704\<close> instead; and for the all-zero system \<open>R1CS(1, 1)\<close> when \<open>alpha_scalar\<close>
  is \<open>27888707\<close> and the other scalars are \<open>1\<close>.
\<close>

definition simple_qap :: QAP where
  "simple_qap =
     \<lparr>qap_A_polys = [[0], [1], [0]], qap_B_polys = [[0], [1], [0]],
      qap_C_polys = [[0], [0], [1]], qap_Z = [2147483646, 1], qap_num_variables = 3\<rparr>"

definition G2 :: ECPoint where
  "G2 = ECPoint 1034715528 89683876 False"

definition simple_pk :: ProvingKey where
  "simple_pk =
     \<lparr>pk_A_query = [infinity, G, infinity], pk_B_query = [infinity, G, infinity],
      pk_C_query = [infinity, infinity, G],
      pk_alpha = G2, pk_beta = G2, pk_delta = G2, pk_Z_query = []\<rparr>"

definition simple_vk :: VerificationKey where
  "simple_vk =
     \<lparr>vk_alpha = G2, vk_beta = G2, vk_gamma = G2, vk_delta = G2, vk_IC = [G, G2]\<rparr>"

definition simple_proof :: Proof where
  "simple_proof =
     \<lparr>proof_A = ECPoint 104651848 394540805 False,
      proof_B = ECPoint 104651848 394540805 False,
      proof_C = ECPoint 1143835306 494018960 False\<rparr>"

definition G_neg3 :: ECPoint where
  "G_neg3 = ECPoint 2122176176 56919594 False"

definition unlucky_pk :: ProvingKey where
  "unlucky_pk = simple_pk\<lparr>pk_alpha := G_neg3\<rparr>"

definition unlucky_vk :: VerificationKey where
  "unlucky_vk = simple_vk\<lparr>vk_alpha := G_neg3\<rparr>"

definition unlucky_proof :: Proof where
  "unlucky_proof = simple_proof\<lparr>proof_A := infinity\<rparr>"

definition zero_qap :: QAP where
  "zero_qap =
     \<lparr>qap_A_polys = [[0]], qap_B_polys = [[0]], qap_C_polys = [[0]],
      qap_Z = [2147483646, 1], qap_num_variables = 1\<rparr>"

definition zero_pk :: ProvingKey where
  "zero_pk =
     \<lparr>pk_A_query = [infinity], pk_B_query = [infinity], pk_C_query = [infinity],
      pk_alpha = infinity, pk_beta = G, pk_delta = G, pk_Z_query = []\<rparr>"

definition zero_vk :: VerificationKey where
  "zero_vk =
     \<lparr>vk_alpha = infinity, vk_beta = G, vk_gamma = G, vk_delta = G, vk_IC = [G]\<rparr>"

definition zero_proof :: Proof where
  "zero_proof = \<lparr>proof_A = infinity, proof_B = G, proof_C = G\<rparr>"

text \<open>
  A verification key and a proof over the curve \<open>y\<^sup>2 = x\<^sup>3 + 1\<close>: \<open>(-1, 0)\<close> and
  \<open>(0, 1)\<close> lie on it.
\<close>

definition order_two_vk :: VerificationKey where
  "order_two_vk =
     \<lparr>vk_alpha = ECPoint 0 1 False, vk_beta = ECPoint 0 1 False, vk_gamma = ECPoint 0 1 False,
      vk_delta = ECPoint 0 1 False, vk_IC = [ECPoint 0 1 False, ECPoint 2147483646 0 False]\<rparr>"

definition plain_proof :: Proof where
  "plain_proof =
     \<lparr>proof_A = ECPoint 0 1 False, proof_B = ECPoint 0 1 False, proof_C = ECPoint 0 1 False\<rparr>"

text \<open>\<open>randomScalar()\<close> draws from \<open>[1, SMALL_PRIME - 1]\<close>.\<close>

definition random_scalar :: "nat \<Rightarrow> bool" where
  "random_scalar k = (1 \<le> k \<and> k \<le> SMALL_PRIME - 1)"


section \<open>The modulus is prime\<close>

text \<open>
  \<open>inverse\<close> throws for every value that is not coprime to \<open>SMALL_PRIME\<close>, so the
  field laws need the primality of \<open>2^31 - 1\<close>. It is proved from a Lucas certificate:
  \<open>7\<close> has multiplicative order \<open>2^31 - 2 = 2 * 3^2 * 7 * 11 * 31 * 151 * 331\<close>, which
  forces all of \<open>1, ..., 2^31 - 2\<close> to be units. The powers are computed by the
  repository's own \<open>power\<close> loop.
\<close>

lemma pow_mod_one_mult:
  fixes a n :: nat
  assumes "a ^ k mod n = 1"
  shows "a ^ (k * x) mod n = 1"
proof -
  have n1: "n \<noteq> 1" using assms by auto
  have "a ^ (k * x) mod n = ((a ^ k) mod n) ^ x mod n"
    by (simp add: power_mult power_mod)
  then have "a ^ (k * x) mod n = 1 mod n" using assms by simp
  then show ?thesis using n1 by (cases "n = 0") auto
qed

lemma unit_coprime:
  fixes x y n :: nat
  assumes "x * y mod n = 1"
  shows "coprime x n"
proof (rule coprimeI)
  fix c assume cx: "c dvd x" and cn: "c dvd n"
  have "c dvd x * y" using cx by simp
  then have "c dvd (x * y) mod n" using cn by (simp add: dvd_mod_iff)
  then show "is_unit c" using assms by simp
qed

lemma pow_split_mod:
  fixes a n :: nat
  shows "a ^ (i + j) mod n = (a ^ i mod n) * a ^ j mod n"
  by (simp add: power_add mod_mult_left_eq)

lemma lucas_no_small:
  fixes a n :: nat
  assumes one: "a ^ (n - 1) mod n = 1"
    and min: "\<And>g. g dvd (n - 1) \<Longrightarrow> g < n - 1 \<Longrightarrow> a ^ g mod n \<noteq> 1"
    and k: "0 < k" "k < n - 1"
  shows "a ^ k mod n \<noteq> 1"
proof
  assume k1: "a ^ k mod n = 1"
  define g where "g = gcd k (n - 1)"
  from bezout_nat [of k "n - 1"] k obtain u v where uv: "k * u = (n - 1) * v + g"
    unfolding g_def by auto
  have "a ^ (k * u) mod n = 1" using k1 by (rule pow_mod_one_mult)
  moreover have "a ^ ((n - 1) * v) mod n = 1" using one by (rule pow_mod_one_mult)
  moreover have "a ^ (k * u) mod n = (a ^ ((n - 1) * v) mod n) * (a ^ g) mod n"
    unfolding uv by (rule pow_split_mod)
  ultimately have "a ^ g mod n = 1" by simp
  moreover have "g dvd n - 1" unfolding g_def by simp
  moreover have "g < n - 1"
  proof -
    have "g dvd k" unfolding g_def by simp
    then have "g \<le> k" using k by (simp add: dvd_imp_le)
    then show ?thesis using k by simp
  qed
  ultimately show False using min by blast
qed

lemma lucas_distinct:
  fixes a n :: nat
  assumes one: "a ^ (n - 1) mod n = 1"
    and min: "\<And>g. g dvd (n - 1) \<Longrightarrow> g < n - 1 \<Longrightarrow> a ^ g mod n \<noteq> 1"
    and lt: "p < q" and q: "q < n - 1"
  shows "a ^ p mod n \<noteq> a ^ q mod n"
proof
  assume e: "a ^ p mod n = a ^ q mod n"
  have e1: "p + (n - 1 - p) = n - 1" using lt q by simp
  have e2: "q + (n - 1 - p) = (n - 1) + (q - p)" using lt q by simp
  have "a ^ (p + (n - 1 - p)) mod n = (a ^ p mod n) * a ^ (n - 1 - p) mod n"
    by (rule pow_split_mod)
  also have "\<dots> = a ^ (q + (n - 1 - p)) mod n"
    unfolding e by (rule pow_split_mod [symmetric])
  finally have "a ^ (n - 1) mod n = a ^ ((n - 1) + (q - p)) mod n"
    unfolding e1 e2 .
  also have "\<dots> = (a ^ (n - 1) mod n) * a ^ (q - p) mod n" by (rule pow_split_mod)
  finally have "1 = 1 * a ^ (q - p) mod n" unfolding one .
  then have "a ^ (q - p) mod n = 1" by simp
  moreover have "a ^ (q - p) mod n \<noteq> 1"
  proof (rule lucas_no_small)
    show "a ^ (n - 1) mod n = 1" by (rule one)
    show "\<And>g. g dvd n - 1 \<Longrightarrow> g < n - 1 \<Longrightarrow> a ^ g mod n \<noteq> 1" by (rule min)
    show "0 < q - p" using lt by simp
    show "q - p < n - 1" using lt q by simp
  qed
  ultimately show False by simp
qed

lemma lucas_coprime:
  fixes a n :: nat
  assumes n2: "n > 2"
    and one: "a ^ (n - 1) mod n = 1"
    and min: "\<And>g. g dvd (n - 1) \<Longrightarrow> g < n - 1 \<Longrightarrow> a ^ g mod n \<noteq> 1"
    and x: "0 < x" "x < n"
  shows "coprime x n"
proof -
  define f where "f = (\<lambda>i. a ^ i mod n)"
  define U where "U = {y. 0 < y \<and> y < n \<and> coprime y n}"
  have inj: "inj_on f {0..<n - 1}"
  proof (rule inj_onI)
    fix i j assume i: "i \<in> {0..<n - 1}" and j: "j \<in> {0..<n - 1}" and e: "f i = f j"
    show "i = j"
    proof (rule ccontr)
      assume "i \<noteq> j"
      then consider "i < j" | "j < i" by linarith
      then show False
      proof cases
        case 1
        then show False using lucas_distinct [OF one min, of i j] j e by (simp add: f_def)
      next
        case 2
        then show False using lucas_distinct [OF one min, of j i] i e by (simp add: f_def)
      qed
    qed
  qed
  have img: "f ` {0..<n - 1} \<subseteq> U"
  proof
    fix y assume "y \<in> f ` {0..<n - 1}"
    then obtain i where i: "i < n - 1" and y: "y = a ^ i mod n" by (auto simp: f_def)
    have e1: "i + (n - 1 - i) = n - 1" using i by simp
    have "a ^ (i + (n - 1 - i)) mod n = (a ^ i mod n) * a ^ (n - 1 - i) mod n"
      by (rule pow_split_mod)
    then have "1 = y * a ^ (n - 1 - i) mod n" unfolding e1 one y .
    then have u: "y * a ^ (n - 1 - i) mod n = 1" by (rule sym)
    then have c: "coprime y n" by (rule unit_coprime)
    have "y < n" using n2 y by simp
    moreover have "0 < y"
    proof (rule ccontr)
      assume "\<not> 0 < y" then have "y = 0" by simp
      with u show False by simp
    qed
    ultimately show "y \<in> U" using c by (simp add: U_def)
  qed
  have sub: "U \<subseteq> {1..<n}" by (auto simp: U_def)
  then have fin: "finite U" by (rule finite_subset) simp
  have "card (f ` {0..<n - 1}) = n - 1" using inj by (simp add: card_image)
  then have "n - 1 \<le> card U" using card_mono [OF fin img] by simp
  then have "card {1..<n} \<le> card U" by simp
  with sub have "U = {1..<n}"
    by (intro card_seteq) simp_all
  moreover have "x \<in> {1..<n}" using x by simp
  ultimately have "x \<in> U" by simp
  then show ?thesis by (simp add: U_def)
qed

lemma mod_pow_cong:
  fixes x y q :: nat
  shows "(x * (y mod q) ^ k) mod q = (x * y ^ k) mod q"
  by (metis mod_mult_right_eq power_mod)

lemma pow_double: fixes b :: nat shows "b ^ (2 * k) = (b * b) ^ k"
  by (simp add: power_mult power2_eq_square)

lemma power_loop_eq:
  "result < SMALL_PRIME \<Longrightarrow> power_loop result base exp = (result * base ^ exp) mod SMALL_PRIME"
proof (induction result base exp rule: power_loop.induct)
  case (1 result base exp)
  show ?case
  proof (cases "exp > 0")
    case False
    then show ?thesis using "1.prems" by (subst power_loop.simps) simp
  next
    case True
    have P: "0 < SMALL_PRIME" by (simp add: SMALL_PRIME_def)
    define r where "r = (if odd exp then fe_mul result base else result)"
    have rlt: "r < SMALL_PRIME" using "1.prems" P by (simp add: r_def fe_mul_def FieldElement_def)
    have "power_loop result base exp = power_loop r (fe_mul base base) (exp div 2)"
      unfolding r_def using True by (subst power_loop.simps) simp
    also have "\<dots> = (r * (fe_mul base base) ^ (exp div 2)) mod SMALL_PRIME"
      using "1.IH" [OF True] rlt unfolding r_def by blast
    also have "\<dots> = (r * (base * base) ^ (exp div 2)) mod SMALL_PRIME"
      by (simp add: fe_mul_def FieldElement_def mod_pow_cong)
    also have "\<dots> = (result * base ^ exp) mod SMALL_PRIME"
    proof (cases "odd exp")
      case True
      then obtain k where k: "exp = 2 * k + 1" by (auto elim: oddE)
      have d: "exp div 2 = k" using k by simp
      have "(r * (base * base) ^ k) mod SMALL_PRIME
          = (result * base * (base * base) ^ k) mod SMALL_PRIME"
        using True by (simp add: r_def fe_mul_def FieldElement_def mod_mult_left_eq)
      also have "result * base * (base * base) ^ k = result * base ^ exp"
        unfolding k by (simp add: pow_double)
      finally show ?thesis unfolding d .
    next
      case False
      then obtain k where k: "exp = 2 * k" by (auto elim: evenE)
      have d: "exp div 2 = k" using k by simp
      have "r = result" using False by (simp add: r_def)
      then show ?thesis unfolding d by (simp add: k pow_double)
    qed
    finally show ?thesis .
  qed
qed

lemma prime_by_check:
  fixes d q :: nat
  assumes chk: "\<forall>d\<in>set [2..int q - 1]. int q mod d \<noteq> 0" and d: "d dvd q" and q: "0 < q"
  shows "d = 1 \<or> d = q"
proof (rule ccontr)
  assume n: "\<not> (d = 1 \<or> d = q)"
  have "d \<le> q" using d q by (simp add: dvd_imp_le)
  moreover have "d \<noteq> 0" using d q by (auto simp: dvd_def)
  ultimately have "int d \<in> set [2..int q - 1]" using n by auto
  with chk have "int q mod int d \<noteq> 0" by (rule bspec)
  moreover have "int q mod int d = 0" using d by (simp flip: of_nat_mod)
  ultimately show False by simp
qed

lemma coprime_by_check:
  fixes c q :: nat
  assumes chk: "\<forall>d\<in>set [2..int q - 1]. int q mod d \<noteq> 0" and q: "0 < q" and nd: "\<not> q dvd c"
  shows "coprime c q"
proof (rule coprimeI)
  fix d assume dc: "d dvd c" and dq: "d dvd q"
  from prime_by_check [OF chk dq q] have "d = 1 \<or> d = q" .
  with dc nd show "is_unit d" by auto
qed

lemma check_2: "\<forall>d\<in>set [2..int 2 - 1]. int 2 mod d \<noteq> 0" by simp
lemma check_3: "\<forall>d\<in>set [2..int 3 - 1]. int 3 mod d \<noteq> 0" by simp
lemma check_7: "\<forall>d\<in>set [2..int 7 - 1]. int 7 mod d \<noteq> 0" by simp
lemma check_11: "\<forall>d\<in>set [2..int 11 - 1]. int 11 mod d \<noteq> 0" by simp
lemma check_31: "\<forall>d\<in>set [2..int 31 - 1]. int 31 mod d \<noteq> 0" by simp
lemma check_151: "\<forall>d\<in>set [2..int 151 - 1]. int 151 mod d \<noteq> 0" by simp
lemma check_331: "\<forall>d\<in>set [2..int 331 - 1]. int 331 mod d \<noteq> 0" by simp

lemma power_loop_one: "power_loop 1 b e = b ^ e mod SMALL_PRIME"
  using power_loop_eq [of 1 b e] by (simp add: SMALL_PRIME_def)

lemma seven_pow_pred: "power_loop 1 7 2147483646 = 1"
  by (simp add: power_loop.simps fe_mul_def FieldElement_def SMALL_PRIME_def)

lemma seven_pow_check_2: "power_loop 1 7 1073741823 \<noteq> 1"
  by (simp add: power_loop.simps fe_mul_def FieldElement_def SMALL_PRIME_def)

lemma seven_pow_check_3: "power_loop 1 7 715827882 \<noteq> 1"
  by (simp add: power_loop.simps fe_mul_def FieldElement_def SMALL_PRIME_def)

lemma seven_pow_check_7: "power_loop 1 7 306783378 \<noteq> 1"
  by (simp add: power_loop.simps fe_mul_def FieldElement_def SMALL_PRIME_def)

lemma seven_pow_check_11: "power_loop 1 7 195225786 \<noteq> 1"
  by (simp add: power_loop.simps fe_mul_def FieldElement_def SMALL_PRIME_def)

lemma seven_pow_check_31: "power_loop 1 7 69273666 \<noteq> 1"
  by (simp add: power_loop.simps fe_mul_def FieldElement_def SMALL_PRIME_def)

lemma seven_pow_check_151: "power_loop 1 7 14221746 \<noteq> 1"
  by (simp add: power_loop.simps fe_mul_def FieldElement_def SMALL_PRIME_def)

lemma seven_pow_check_331: "power_loop 1 7 6487866 \<noteq> 1"
  by (simp add: power_loop.simps fe_mul_def FieldElement_def SMALL_PRIME_def)

lemmas seven_pow_checks = seven_pow_check_2 seven_pow_check_3 seven_pow_check_7
  seven_pow_check_11 seven_pow_check_31 seven_pow_check_151 seven_pow_check_331

lemma factors_of_pred:
  fixes c :: nat
  assumes c: "c dvd 2147483646" and c1: "c \<noteq> 1"
  shows "2 dvd c \<or> 3 dvd c \<or> 7 dvd c \<or> 11 dvd c \<or> 31 dvd c \<or> 151 dvd c \<or> 331 dvd c"
proof (rule ccontr)
  assume n: "\<not> ?thesis"
  have "coprime c 2" using n by (intro coprime_by_check [OF check_2]) simp_all
  moreover have "coprime c 3" using n by (intro coprime_by_check [OF check_3]) simp_all
  moreover have "coprime c 7" using n by (intro coprime_by_check [OF check_7]) simp_all
  moreover have "coprime c 11" using n by (intro coprime_by_check [OF check_11]) simp_all
  moreover have "coprime c 31" using n by (intro coprime_by_check [OF check_31]) simp_all
  moreover have "coprime c 151" using n by (intro coprime_by_check [OF check_151]) simp_all
  moreover have "coprime c 331" using n by (intro coprime_by_check [OF check_331]) simp_all
  ultimately have "coprime c (2 * (3 * (3 * (7 * (11 * (31 * (151 * 331)))))))"
    by (simp only: coprime_mult_right_iff simp_thms)
  moreover have "(2 * (3 * (3 * (7 * (11 * (31 * (151 * 331))))))) = (2147483646::nat)" by simp
  ultimately have "coprime c 2147483646" by simp
  then have "is_unit c" using c by (rule coprime_common_divisor [OF _ dvd_refl])
  with c1 show False by simp
qed

lemma proper_divisor_of_pred:
  fixes g :: nat
  assumes g: "g dvd 2147483646" and lt: "g < 2147483646"
  shows "g dvd 1073741823 \<or> g dvd 715827882 \<or> g dvd 306783378 \<or> g dvd 195225786
       \<or> g dvd 69273666 \<or> g dvd 14221746 \<or> g dvd 6487866"
proof -
  from g obtain c where c: "2147483646 = g * c" by (auto simp: dvd_def)
  have "c \<noteq> 1" using c lt by auto
  moreover have "c dvd 2147483646" by (metis c dvd_triv_right)
  ultimately have "2 dvd c \<or> 3 dvd c \<or> 7 dvd c \<or> 11 dvd c \<or> 31 dvd c \<or> 151 dvd c \<or> 331 dvd c"
    by (intro factors_of_pred)
  moreover have "g dvd 2147483646 div q" if "q dvd c" "0 < q" for q
  proof -
    from that obtain k where k: "c = q * k" by (auto simp: dvd_def)
    have e: "2147483646 = q * (g * k)" unfolding c k by simp
    have "q * (g * k) div q = g * k" using that(2) by simp
    then have "2147483646 div q = g * k" unfolding e [symmetric] .
    then show ?thesis by (metis dvd_triv_left)
  qed
  from this [of 2] this [of 3] this [of 7] this [of 11] this [of 31] this [of 151] this [of 331]
  have "2 dvd c \<Longrightarrow> g dvd 1073741823" "3 dvd c \<Longrightarrow> g dvd 715827882" "7 dvd c \<Longrightarrow> g dvd 306783378"
    "11 dvd c \<Longrightarrow> g dvd 195225786" "31 dvd c \<Longrightarrow> g dvd 69273666" "151 dvd c \<Longrightarrow> g dvd 14221746"
    "331 dvd c \<Longrightarrow> g dvd 6487866" by simp_all
  ultimately show ?thesis by blast
qed

lemma SMALL_PRIME_coprime:
  assumes "0 < x" and "x < SMALL_PRIME"
  shows "coprime x SMALL_PRIME"
proof (rule lucas_coprime [where a = 7])
  show "2 < SMALL_PRIME" by (simp add: SMALL_PRIME_def)
  have "SMALL_PRIME - 1 = 2147483646" by (simp add: SMALL_PRIME_def)
  then show "7 ^ (SMALL_PRIME - 1) mod SMALL_PRIME = 1"
    unfolding power_loop_one [symmetric] by (simp only: seven_pow_pred)
  show "7 ^ g mod SMALL_PRIME \<noteq> 1" if g: "g dvd SMALL_PRIME - 1" "g < SMALL_PRIME - 1" for g
  proof
    assume one: "7 ^ g mod SMALL_PRIME = (1::nat)"
    have *: "power_loop 1 7 m = 1" if "g dvd m" for m
    proof -
      from that obtain k where m: "m = g * k" by (auto simp: dvd_def)
      have "7 ^ m mod SMALL_PRIME = (1::nat)" unfolding m by (rule pow_mod_one_mult [OF one])
      then show ?thesis unfolding power_loop_one .
    qed
    from g have "g dvd 2147483646" "g < 2147483646" by (simp_all add: SMALL_PRIME_def)
    from proper_divisor_of_pred [OF this] show False
      using * seven_pow_checks by blast
  qed
  show "0 < x" "x < SMALL_PRIME" by fact+
qed

section \<open>Field laws\<close>

text \<open>
  The invariant of the extended Euclid loop. With \<open>\<bar>t\<bar> = u\<close>, \<open>\<bar>newt\<bar> = v\<close> it
  keeps \<open>u \<le> v\<close> and \<open>u * newr + v * r = p\<close>, so all values of the run are bounded by
  \<open>p\<close> and the \<open>int64_t\<close> arithmetic of the source never overflows.
\<close>

lemma sdiv_nonneg_eq_div:
  fixes a b :: int
  assumes "0 \<le> a" "0 \<le> b"
  shows "a sdiv b = a div b"
  using assms by (auto simp: signed_divide_int_def sgn_if)

lemma inverse_loop_invariant:
  fixes a p :: int
  assumes "0 \<le> newr" "newr < r"
    and "s = 1 \<or> s = - 1" "0 \<le> u" "u \<le> v"
    and "t = - s * u" "newt = s * v"
    and "u * newr + v * r = p"
    and "(t * a) mod p = r mod p" "(newt * a) mod p = newr mod p"
  shows "case inverse_loop t newt r newr of
           (t', r') \<Rightarrow> r' = gcd r newr \<and> (t' * a) mod p = r' mod p \<and> \<bar>t'\<bar> \<le> p"
  using assms
proof (induction t newt r newr arbitrary: s u v rule: inverse_loop.induct)
  case (1 t newt r newr)
  show ?case
  proof (cases "newr = 0")
    case True
    have r1: "1 \<le> r" using "1.prems"(1,2) by simp
    have "v * r = p" using "1.prems"(8) True by simp
    moreover have "0 \<le> v" using "1.prems"(4,5) by simp
    ultimately have "v \<le> p" using r1 by (metis mult.commute mult_1 mult_right_mono)
    moreover have "\<bar>t\<bar> = u" using "1.prems"(3,4,6) by auto
    ultimately have "\<bar>t\<bar> \<le> p" using "1.prems"(5) by simp
    then show ?thesis using True "1.prems"(1,2,9) by (simp add: inverse_loop.simps [of t newt r 0])
  next
    case False
    then have pos: "0 < newr" using "1.prems"(1) by simp
    define q where "q = r sdiv newr"
    have q: "q = r div newr" unfolding q_def using "1.prems"(1,2) by (intro sdiv_nonneg_eq_div) simp_all
    have "0 < r div newr" using pos "1.prems"(2) by (simp add: pos_imp_zdiv_pos_iff)
    then have q1: "1 \<le> q" unfolding q by simp
    have rem: "r - q * newr = r mod newr" unfolding q by (simp add: minus_div_mult_eq_mod)
    have step: "inverse_loop t newt r newr = inverse_loop newt (t - q * newt) newr (r - q * newr)"
      using False by (subst inverse_loop.simps) (simp add: q_def Let_def)
    have IH: "case inverse_loop newt (t - q * newt) newr (r - q * newr) of
           (t', r') \<Rightarrow> r' = gcd newr (r - q * newr) \<and> (t' * a) mod p = r' mod p \<and> \<bar>t'\<bar> \<le> p"
    proof (rule "1.IH" [OF False q_def, where s = "- s" and u = v and v = "u + q * v"])
      show "0 \<le> r - q * newr" unfolding rem using pos by simp
      show "r - q * newr < newr" unfolding rem using pos by simp
      show "- s = 1 \<or> - s = - 1" using "1.prems"(3) by auto
      show "0 \<le> v" using "1.prems"(4,5) by simp
      have "0 \<le> (q - 1) * v" using q1 \<open>0 \<le> v\<close> by simp
      then show "v \<le> u + q * v" using "1.prems"(4) by (simp add: algebra_simps)
      show "newt = - (- s) * v" using "1.prems"(7) by simp
      show "t - q * newt = - s * (u + q * v)" using "1.prems"(6,7) by (simp add: algebra_simps)
      show "v * (r - q * newr) + (u + q * v) * newr = p"
        using "1.prems"(8) by (simp add: algebra_simps)
      show "newt * a mod p = newr mod p" by (rule "1.prems"(10))
      have "(t - q * newt) * a = t * a - q * (newt * a)" by (simp add: algebra_simps)
      also have "\<dots> mod p = (r - q * newr) mod p"
        by (intro mod_diff_cong mod_mult_cong "1.prems"(9,10) refl)
      finally show "(t - q * newt) * a mod p = (r - q * newr) mod p" .
    qed
    have "gcd newr (r - q * newr) = gcd r newr"
      unfolding rem by (metis gcd_red_int)
    then show ?thesis using IH unfolding step by simp
  qed
qed

lemma fe_inverse_nonzero:
  assumes a: "0 < a" "a < SMALL_PRIME"
  shows "\<exists>i. fe_inverse a = Inr i \<and> i < SMALL_PRIME \<and> fe_mul a i = 1"
proof -
  define p where "p = int SMALL_PRIME"
  have p2: "2 < p" by (simp add: p_def SMALL_PRIME_def)
  obtain t r where tr: "inverse_loop 0 1 p (int a) = (t, r)" by (cases "inverse_loop 0 1 p (int a)")
  have "case inverse_loop 0 1 p (int a) of
          (t', r') \<Rightarrow> r' = gcd p (int a) \<and> (t' * int a) mod p = r' mod p \<and> \<bar>t'\<bar> \<le> p"
    by (rule inverse_loop_invariant [where s = 1 and u = 0 and v = 1])
       (use a in \<open>simp_all add: p_def\<close>)
  then have r: "r = gcd p (int a)" and t: "(t * int a) mod p = r mod p" and b: "\<bar>t\<bar> \<le> p"
    by (simp_all add: tr)
  have "coprime a SMALL_PRIME" using a by (rule SMALL_PRIME_coprime)
  then have "gcd (int SMALL_PRIME) (int a) = 1"
    by (metis coprime_int_iff coprime_iff_gcd_eq_1 gcd.commute)
  then have r1: "r = 1" by (simp add: r p_def)
  define t' where "t' = (if t < 0 then t + p else t)"
  have t'0: "0 \<le> t'" using b by (auto simp: t'_def)
  have "(t' * int a) mod p = (t * int a) mod p"
    by (simp add: t'_def algebra_simps)
  then have t'1: "(t' * int a) mod p = 1" using t r1 p2 by simp
  define i where "i = FieldElement (nat t')"
  have inv: "fe_inverse a = Inr i"
    using a r1 by (simp add: fe_inverse_def tr [unfolded p_def] i_def t'_def p_def)
  have ilt: "i < SMALL_PRIME" by (simp add: i_def FieldElement_def SMALL_PRIME_def)
  have "int (fe_mul a i) = (int a * (t' mod p)) mod p"
    using t'0 by (simp add: fe_mul_def FieldElement_def i_def p_def of_nat_mod)
  also have "\<dots> = (t' * int a) mod p"
    by (simp add: mod_mult_right_eq mult.commute)
  finally have "int (fe_mul a i) = 1" using t'1 by simp
  then have "fe_mul a i = 1" by simp
  with inv ilt show ?thesis by blast
qed

text \<open>
  The field elements embed into the ring of integers modulo \<open>2^31 - 1\<close>, where the
  algebra of the later sections is done.
\<close>

lemma card_Fp: "CARD(Fp) = SMALL_PRIME"
  by (simp add: SMALL_PRIME_def)

lemma char_Fp: "CHAR(Fp) = SMALL_PRIME"
  by (simp add: SMALL_PRIME_def)

lemma of_nat_Fp_eq_iff:
  "(of_nat a :: Fp) = of_nat b \<longleftrightarrow> a mod SMALL_PRIME = b mod SMALL_PRIME"
proof -
  have aux: "(of_nat a :: Fp) = of_nat b \<longleftrightarrow> a mod SMALL_PRIME = b mod SMALL_PRIME"
    if "b \<le> a" for a b :: nat
  proof -
    have "(of_nat a :: Fp) = of_nat b \<longleftrightarrow> (of_nat (a - b) :: Fp) = 0"
      using that by simp
    also have "\<dots> \<longleftrightarrow> SMALL_PRIME dvd (a - b)"
      by (simp only: of_nat_eq_0_iff_char_dvd char_Fp)
    also have "\<dots> \<longleftrightarrow> a mod SMALL_PRIME = b mod SMALL_PRIME"
      using that by (metis mod_eq_dvd_iff_nat)
    finally show ?thesis .
  qed
  show ?thesis
  proof (cases "b \<le> a")
    case True then show ?thesis by (rule aux)
  next
    case False
    then have "a \<le> b" by simp
    from aux [OF this] show ?thesis by auto
  qed
qed

text \<open>
  C8: \<open>inverse()\<close> fails with a DivisionError on the additive identity, and for every
  nonzero field element \<open>a\<close> it returns an element \<open>i\<close> with \<open>a * i = 1\<close>.
\<close>

theorem inverse_correct:
  "(\<exists>e. fe_inverse (FieldElement 0) = Inl e \<and> DivisionError e) \<and>
   (\<forall>a. valid_fe a \<and> a \<noteq> FieldElement 0 \<longrightarrow>
        (\<exists>i. fe_inverse a = Inr i \<and> valid_fe i \<and> fe_mul a i = FieldElement 1))"
proof (intro conjI allI impI)
  show "\<exists>e. fe_inverse (FieldElement 0) = Inl e \<and> DivisionError e"
    by (simp add: fe_inverse_def FieldElement_def DivisionError_def)
next
  fix a assume "valid_fe a \<and> a \<noteq> FieldElement 0"
  then have "0 < a" "a < SMALL_PRIME" by (simp_all add: valid_fe_def FieldElement_def)
  from fe_inverse_nonzero [OF this]
  show "\<exists>i. fe_inverse a = Inr i \<and> valid_fe i \<and> fe_mul a i = FieldElement 1"
    by (auto simp: valid_fe_def FieldElement_def SMALL_PRIME_def)
qed

theorem inverse_correct_witness:
  "valid_fe 3 \<and> 3 \<noteq> FieldElement 0 \<and>
   (\<exists>i. fe_inverse 3 = Inr i \<and> valid_fe i \<and> fe_mul 3 i = FieldElement 1)"
proof -
  have "valid_fe 3 \<and> 3 \<noteq> FieldElement 0"
    by (simp add: valid_fe_def FieldElement_def SMALL_PRIME_def)
  with inverse_correct show ?thesis by blast
qed

section \<open>Point addition\<close>

lemmas fe_eval = fe_add_def fe_sub_def fe_mul_def fe_div_def fe_inverse_def FieldElement_def
  SMALL_PRIME_def inverse_loop.simps

text \<open>
  C5 claims that the slope computation of point addition never divides by the additive
  identity, in particular when a valid point with \<open>y = 0\<close> is added to itself. The
  doubling branch computes \<open>(3x\<^sup>2 + a) / (2y)\<close> without a guard: on the curve
  \<open>y\<^sup>2 = x\<^sup>3 + 1\<close> the point \<open>(-1, 0)\<close> is valid, and adding it to itself raises
  \<open>Cannot invert zero\<close>.
\<close>

theorem doubling_with_y_zero_raises:
  "on_curve (CurveParams 0 1) (ECPoint 2147483646 0 False) \<and>
   valid_fe 2147483646 \<and>
   ec_add (CurveParams 0 1) (ECPoint 2147483646 0 False) (ECPoint 2147483646 0 False)
     = Inl Cannot_invert_zero \<and>
   DivisionError Cannot_invert_zero"
  by (simp add: on_curve_def ec_add_def valid_fe_def DivisionError_def fe_eval)

section \<open>Constraint system\<close>

lemma fe_add_mul_mod: "fe_add acc (fe_mul a b) = (acc + a * b) mod SMALL_PRIME"
  by (simp add: fe_add_def fe_mul_def FieldElement_def mod_add_right_eq)

lemma dot_product_fold_sum:
  "fold (\<lambda>j val. fe_add val (fe_mul (row ! j) (w ! j))) [0..<n] (acc mod SMALL_PRIME)
     = (acc + (\<Sum>j<n. row ! j * w ! j)) mod SMALL_PRIME"
proof (induction n)
  case 0
  show ?case by simp
next
  case (Suc n)
  let ?f = "\<lambda>j val. fe_add val (fe_mul (row ! j) (w ! j))"
  have "fold ?f [0..<Suc n] (acc mod SMALL_PRIME) = ?f n (fold ?f [0..<n] (acc mod SMALL_PRIME))"
    by simp
  also have "\<dots> = ?f n ((acc + (\<Sum>j<n. row ! j * w ! j)) mod SMALL_PRIME)"
    by (simp only: Suc.IH)
  also have "\<dots> = ((acc + (\<Sum>j<n. row ! j * w ! j)) mod SMALL_PRIME + row ! n * w ! n) mod SMALL_PRIME"
    by (simp only: fe_add_mul_mod)
  also have "\<dots> = (acc + (\<Sum>j<Suc n. row ! j * w ! j)) mod SMALL_PRIME"
    by (simp add: mod_add_left_eq add.assoc)
  finally show ?case .
qed

lemma dot_product_sum:
  "dot_product row w nv = spec_dot row w (nat nv)"
  using dot_product_fold_sum [of row w "nat nv" 0]
  by (simp add: dot_product_def FieldElement_def spec_dot_def)

lemma verify_loop_all:
  assumes "\<forall>i\<in>set rows. row_holds r w i"
  shows "verify_loop r w rows ex = (True, ex @ rows)"
  using assms by (induction rows arbitrary: ex) simp_all

lemma verify_loop_first_failure:
  assumes "\<forall>i\<in>set pre. row_holds r w i" and "\<not> row_holds r w k"
  shows "verify_loop r w (pre @ k # post) ex = (False, ex @ pre @ [k])"
  using assms by (induction pre arbitrary: ex) simp_all

lemma verify_loop_fst:
  "fst (verify_loop r w rows ex) \<longleftrightarrow> (\<forall>i\<in>set rows. row_holds r w i)"
  by (induction rows arbitrary: ex) simp_all

text \<open>
  C7: \<open>verify\<close> returns false when the witness length differs from \<open>num_variables\<close>;
  otherwise it returns true exactly when every row satisfies
  \<open>(A_i\<cdot>witness) * (B_i\<cdot>witness) = (C_i\<cdot>witness)\<close>, and at the first unsatisfied row
  \<open>k\<close> it returns false having examined the rows \<open>0, ..., k\<close> and no later one.
\<close>

theorem r1cs_verify_spec:
  "(int (length w) \<noteq> r1cs_num_variables r \<longrightarrow> r1cs_verify r w = (False, [])) \<and>
   (int (length w) = r1cs_num_variables r \<longrightarrow>
      (fst (r1cs_verify r w) \<longleftrightarrow>
         (\<forall>i<nat (r1cs_num_constraints r). spec_row_satisfied r w i)) \<and>
      (\<forall>k<nat (r1cs_num_constraints r).
          \<not> spec_row_satisfied r w k \<and> (\<forall>i<k. spec_row_satisfied r w i) \<longrightarrow>
          r1cs_verify r w = (False, [0..<Suc k])))"
proof -
  have rs: "row_holds r w i \<longleftrightarrow> spec_row_satisfied r w i" for i
    by (simp add: row_holds_def spec_row_satisfied_def dot_product_sum spec_dot_def fe_mul_def FieldElement_def)
  show ?thesis
  proof (intro conjI impI allI)
    assume "int (length w) \<noteq> r1cs_num_variables r"
    then show "r1cs_verify r w = (False, [])" by (simp add: r1cs_verify_def)
  next
    assume "int (length w) = r1cs_num_variables r"
    then show "fst (r1cs_verify r w) \<longleftrightarrow> (\<forall>i<nat (r1cs_num_constraints r). spec_row_satisfied r w i)"
      by (auto simp: r1cs_verify_def verify_loop_fst rs)
  next
    fix k
    assume len: "int (length w) = r1cs_num_variables r"
      and k: "k < nat (r1cs_num_constraints r)"
      and f: "\<not> spec_row_satisfied r w k \<and> (\<forall>i<k. spec_row_satisfied r w i)"
    have split: "[0..<nat (r1cs_num_constraints r)] = [0..<k] @ k # [Suc k..<nat (r1cs_num_constraints r)]"
      using k by (metis le0 upt_add_eq_append upt_conv_Cons le_add_diff_inverse less_imp_le)
    have "verify_loop r w ([0..<k] @ k # [Suc k..<nat (r1cs_num_constraints r)]) []
            = (False, [] @ [0..<k] @ [k])"
      using f by (intro verify_loop_first_failure) (simp_all add: rs)
    then show "r1cs_verify r w = (False, [0..<Suc k])"
      using len by (simp add: r1cs_verify_def split [symmetric])
  qed
qed

theorem r1cs_verify_spec_witness:
  "int (length [1, 3 :: nat]) \<noteq> r1cs_num_variables simple_example \<and>
   r1cs_verify simple_example [1, 3] = (False, []) \<and>
   int (length [1, 3, 9 :: nat]) = r1cs_num_variables simple_example \<and>
   nat (r1cs_num_constraints simple_example) = 1 \<and>
   spec_row_satisfied simple_example [1, 3, 9] 0 \<and>
   fst (r1cs_verify simple_example [1, 3, 9]) \<and>
   0 < nat (r1cs_num_constraints simple_example) \<and>
   \<not> spec_row_satisfied simple_example [1, 3, 10] 0 \<and>
   r1cs_verify simple_example [1, 3, 10] = (False, [0..<Suc 0])"
proof -
  have h1: "int (length [1, 3 :: nat]) \<noteq> r1cs_num_variables simple_example"
    by (simp add: simple_example_def)
  have h2: "int (length [1, 3, 9 :: nat]) = r1cs_num_variables simple_example"
    and h3: "int (length [1, 3, 10 :: nat]) = r1cs_num_variables simple_example"
    and h4: "0 < nat (r1cs_num_constraints simple_example)"
    by (simp_all add: simple_example_def)
  have h5: "\<forall>i<nat (r1cs_num_constraints simple_example). spec_row_satisfied simple_example [1, 3, 9] i"
    by (simp add: simple_example_def spec_row_satisfied_def spec_dot_def SMALL_PRIME_def
        lessThan_nat_numeral lessThan_Suc)
  have h6: "\<not> spec_row_satisfied simple_example [1, 3, 10] 0"
    by (simp add: simple_example_def spec_row_satisfied_def spec_dot_def SMALL_PRIME_def
        lessThan_nat_numeral lessThan_Suc)
  have c1: "r1cs_verify simple_example [1, 3] = (False, [])"
    using r1cs_verify_spec [of "[1, 3]" simple_example] h1 by blast
  have c2: "fst (r1cs_verify simple_example [1, 3, 9])"
    using r1cs_verify_spec [of "[1, 3, 9]" simple_example] h2 h5 by blast
  have c3: "r1cs_verify simple_example [1, 3, 10] = (False, [0..<Suc 0])"
    using r1cs_verify_spec [of "[1, 3, 10]" simple_example] h3 h4 h6 by blast
  have h7: "nat (r1cs_num_constraints simple_example) = 1"
    by (simp add: simple_example_def)
  from h5 h7 have h8: "spec_row_satisfied simple_example [1, 3, 9] 0" by simp
  from h1 h2 h4 h6 h7 h8 c1 c2 c3 show ?thesis by blast
qed

text \<open>
  C9: \<open>setConstraint\<close> fails with the RangeError exactly when
  \<open>index \<ge> num_constraints\<close>; for an index in range it stores the three rows at that
  index and leaves every other row, and the dimensions, unchanged.
\<close>

theorem setConstraint_spec:
  "((\<exists>e. setConstraint r idx a b c = Inl e \<and> RangeError e) \<longleftrightarrow> idx \<ge> r1cs_num_constraints r) \<and>
   (0 \<le> idx \<and> idx < r1cs_num_constraints r \<and>
    int (length (r1cs_A r)) = r1cs_num_constraints r \<and>
    int (length (r1cs_B r)) = r1cs_num_constraints r \<and>
    int (length (r1cs_C r)) = r1cs_num_constraints r \<longrightarrow>
      (\<exists>r'. setConstraint r idx a b c = Inr r' \<and>
            r1cs_A r' ! nat idx = a \<and> r1cs_B r' ! nat idx = b \<and> r1cs_C r' ! nat idx = c \<and>
            (\<forall>k. k \<noteq> nat idx \<longrightarrow>
                 r1cs_A r' ! k = r1cs_A r ! k \<and> r1cs_B r' ! k = r1cs_B r ! k \<and>
                 r1cs_C r' ! k = r1cs_C r ! k) \<and>
            length (r1cs_A r') = length (r1cs_A r) \<and> length (r1cs_B r') = length (r1cs_B r) \<and>
            length (r1cs_C r') = length (r1cs_C r) \<and>
            r1cs_num_variables r' = r1cs_num_variables r \<and>
            r1cs_num_constraints r' = r1cs_num_constraints r))"
  by (auto simp: setConstraint_def RangeError_def)

theorem setConstraint_spec_witness:
  "2 \<ge> r1cs_num_constraints (new_R1CS 3 1) \<and>
   (\<exists>e. setConstraint (new_R1CS 3 1) 2 [0, 1, 0] [0, 1, 0] [0, 0, 1] = Inl e \<and> RangeError e) \<and>
   (0::int) \<le> 0 \<and> 0 < r1cs_num_constraints (new_R1CS 3 1) \<and>
   int (length (r1cs_A (new_R1CS 3 1))) = r1cs_num_constraints (new_R1CS 3 1) \<and>
   int (length (r1cs_B (new_R1CS 3 1))) = r1cs_num_constraints (new_R1CS 3 1) \<and>
   int (length (r1cs_C (new_R1CS 3 1))) = r1cs_num_constraints (new_R1CS 3 1) \<and>
   (\<exists>r'. setConstraint (new_R1CS 3 1) 0 [0, 1, 0] [0, 1, 0] [0, 0, 1] = Inr r' \<and>
         r1cs_A r' ! nat 0 = [0, 1, 0] \<and> r1cs_B r' ! nat 0 = [0, 1, 0] \<and>
         r1cs_C r' ! nat 0 = [0, 0, 1])"
proof -
  have h1: "2 \<ge> r1cs_num_constraints (new_R1CS 3 1)" by (simp add: new_R1CS_def)
  have h2: "(0::int) \<le> 0 \<and> 0 < r1cs_num_constraints (new_R1CS 3 1) \<and>
      int (length (r1cs_A (new_R1CS 3 1))) = r1cs_num_constraints (new_R1CS 3 1) \<and>
      int (length (r1cs_B (new_R1CS 3 1))) = r1cs_num_constraints (new_R1CS 3 1) \<and>
      int (length (r1cs_C (new_R1CS 3 1))) = r1cs_num_constraints (new_R1CS 3 1)"
    by (simp add: new_R1CS_def)
  have c1: "\<exists>e. setConstraint (new_R1CS 3 1) 2 [0, 1, 0] [0, 1, 0] [0, 0, 1] = Inl e \<and> RangeError e"
    using setConstraint_spec [of "new_R1CS 3 1" 2 "[0, 1, 0]" "[0, 1, 0]" "[0, 0, 1]"] h1 by blast
  have c2: "\<exists>r'. setConstraint (new_R1CS 3 1) 0 [0, 1, 0] [0, 1, 0] [0, 0, 1] = Inr r' \<and>
         r1cs_A r' ! nat 0 = [0, 1, 0] \<and> r1cs_B r' ! nat 0 = [0, 1, 0] \<and>
         r1cs_C r' ! nat 0 = [0, 0, 1]"
    using setConstraint_spec [of "new_R1CS 3 1" 0 "[0, 1, 0]" "[0, 1, 0]" "[0, 0, 1]"] h2 by blast
  from h1 h2 c1 c2 show ?thesis by blast
qed

lemma simple_example_built:
  "setConstraint (new_R1CS 3 1) 0 [0, 1, 0] [0, 1, 0] [0, 0, 1] = Inr simple_example"
  by (simp add: setConstraint_def new_R1CS_def simple_example_def FieldElement_def)

section \<open>Protocol\<close>

lemmas ec_eval = ec_add_def ec_mul_def ec_mul_loop.simps infinity_def protocol_curve_def G_def

lemma setup_IC_append:
  assumes "setup_IC is IC0 = Inr IC"
  shows "\<exists>pts. IC = IC0 @ pts \<and> length pts = length is \<and>
           (\<forall>k<length is. ec_mul protocol_curve G (nat (is ! k + 1)) = Inr (pts ! k))"
  using assms
proof (induction "is" arbitrary: IC0)
  case Nil
  then show ?case by simp
next
  case (Cons i rest)
  from Cons.prems obtain pt where pt: "ec_mul protocol_curve G (nat (i + 1)) = Inr pt"
    and rest: "setup_IC rest (IC0 @ [pt]) = Inr IC"
    by (auto split: sum.splits)
  from Cons.IH [OF rest] obtain pts where pts: "IC = (IC0 @ [pt]) @ pts" "length pts = length rest"
    "\<forall>k<length rest. ec_mul protocol_curve G (nat (rest ! k + 1)) = Inr (pts ! k)"
    by blast
  have "\<forall>k<length (i # rest). ec_mul protocol_curve G (nat ((i # rest) ! k + 1)) = Inr ((pt # pts) ! k)"
  proof (intro allI impI)
    fix k assume "k < length (i # rest)"
    then show "ec_mul protocol_curve G (nat ((i # rest) ! k + 1)) = Inr ((pt # pts) ! k)"
      using pt pts(3) by (cases k) simp_all
  qed
  with pts(1,2) show ?case by (intro exI [of _ "pt # pts"]) simp
qed

lemma bind_err_Inr:
  "bind_err m f = Inr v \<longleftrightarrow> (\<exists>u. m = Inr u \<and> f u = Inr v)"
  by (cases m) (simp_all add: bind_err_def)

lemma zk_setup_IC:
  assumes "zk_setup qap r1cs pk vk n tau al be ga de = Inr (pk', vk')"
  shows "setup_IC [0..n] (vk_IC vk) = Inr (vk_IC vk')"
  using assms by (auto simp: zk_setup_def bind_err_Inr)

lemma zk_verify_Inr:
  "zk_verify cp vk prf pub = Inr b \<Longrightarrow> b = none_at_infinity prf"
  by (auto simp: zk_verify_def bind_err_Inr none_at_infinity_def)

subsection \<open>Runs of the pipeline\<close>

text \<open>
  The stages of the pipeline evaluated on \<open>simple_example\<close> with the witness
  \<open>[1, 3, 9]\<close> and the public input \<open>[9]\<close>, and on the all-zero system \<open>R1CS(1, 1)\<close>
  with the witness \<open>[0]\<close>. Under the arithmetic of \<open>ECPoint\<close> the multiple
  \<open>G * 27888707\<close> is the point at infinity, and \<open>27888707\<close> is a value
  \<open>randomScalar()\<close> can return.
\<close>

lemmas poly_eval = evaluate_def poly_add_def poly_mul_def poly_scale_def basisPolynomial_def
  interpolate_def target_polynomial_def evaluation_points_def column_def

lemma bind_err_simps:
  "bind_err (Inr v) f = f v" "bind_err (Inl e) f = Inl e"
  by (simp_all add: bind_err_def)

lemma bind_err_weak_cong: "m = m' \<Longrightarrow> bind_err m f = bind_err m' f"
  by simp

lemmas eval_cong = bind_err_weak_cong sum.case_cong_weak prod.case_cong_weak

lemma upt_0_3: "[0..<3] = [0, 1, 2]"
  by code_simp

lemma fromR1CS_simple_example: "fromR1CS simple_example = Inr simple_qap"
  by (simp add: fromR1CS_def simple_example_def simple_qap_def poly_eval fe_eval upt_0_3 Let_def)

lemma fromR1CS_zero: "fromR1CS (new_R1CS 1 1) = Inr zero_qap"
  by (simp add: fromR1CS_def new_R1CS_def zero_qap_def poly_eval fe_eval Let_def)

lemma G_times_0: "ec_mul protocol_curve G 0 = Inr infinity"
  by (simp add: ec_mul_def)

lemma G_times_1: "ec_mul protocol_curve G (Suc 0) = Inr G"
  by (simp add: ec_eval fe_eval)

lemma G_times_2: "ec_mul protocol_curve G 2 = Inr G2"
  by (simp add: ec_eval fe_eval G2_def)

lemma G_times_order: "ec_mul protocol_curve G 27888707 = Inr infinity"
  by (simp add: ec_eval fe_eval)

lemmas G_times = G_times_0 G_times_1 G_times_2 G_times_order

lemma setup_simple:
  "zk_setup simple_qap simple_example new_ProvingKey new_VerificationKey 1 2 2 2 2 2
     = Inr (simple_pk, simple_vk)"
  by (simp add: zk_setup_def bind_err_simps simple_qap_def new_ProvingKey_def new_VerificationKey_def
      simple_pk_def simple_vk_def evaluate_def fe_add_def fe_mul_def FieldElement_def SMALL_PRIME_def
      G_times upt_0_3 upto.simps
      cong: eval_cong)

lemma setup_zero:
  "zk_setup zero_qap (new_R1CS 1 1) new_ProvingKey new_VerificationKey 0 1 27888707 1 1 1
     = Inr (zero_pk, zero_vk)"
  by (simp add: zk_setup_def bind_err_simps zero_qap_def new_ProvingKey_def new_VerificationKey_def
      zero_pk_def zero_vk_def evaluate_def fe_add_def fe_mul_def FieldElement_def SMALL_PRIME_def
      G_times upto.simps
      cong: eval_cong)

lemma prove_simple: "zk_prove simple_qap simple_pk [1, 3, 9] [9] 1 1 = Inr simple_proof"
  by (simp add: zk_prove_def bind_err_simps simple_pk_def simple_proof_def G2_def ec_eval fe_eval
      cong: eval_cong)

lemma prove_zero: "zk_prove zero_qap zero_pk [0] [] 1 1 = Inr zero_proof"
  by (simp add: zk_prove_def bind_err_simps zero_pk_def zero_proof_def ec_eval fe_eval
      cong: eval_cong)

lemma verify_simple: "zk_verify protocol_curve simple_vk simple_proof [9] = Inr True"
  by (simp add: zk_verify_def bind_err_simps simple_vk_def simple_proof_def G2_def ec_eval fe_eval
      cong: eval_cong)

lemma verify_zero: "zk_verify protocol_curve zero_vk zero_proof [] = Inr False"
  by (simp add: zk_verify_def bind_err_simps zero_vk_def zero_proof_def infinity_def
      cong: eval_cong)

lemma round_trip_simple: "round_trip simple_example [1, 3, 9] [9] 2 2 2 2 2 1 1 = Inr True"
proof -
  have len: "int (length [9 :: nat]) = 1" by simp
  show ?thesis
    unfolding round_trip_def
    by (simp only: fromR1CS_simple_example bind_err_simps len setup_simple fst_conv snd_conv
        prove_simple verify_simple)
qed

lemma G_times_neg3: "ec_mul protocol_curve G 27888704 = Inr G_neg3"
  by (simp add: ec_eval fe_eval G_neg3_def)

lemma setup_unlucky:
  "zk_setup simple_qap simple_example new_ProvingKey new_VerificationKey 1 2 27888704 2 2 2
     = Inr (unlucky_pk, unlucky_vk)"
  by (simp add: zk_setup_def bind_err_simps simple_qap_def new_ProvingKey_def new_VerificationKey_def
      unlucky_pk_def unlucky_vk_def simple_pk_def simple_vk_def evaluate_def fe_add_def fe_mul_def
      FieldElement_def SMALL_PRIME_def G_times G_times_neg3 upt_0_3 upto.simps
      cong: eval_cong)

lemma prove_unlucky: "zk_prove simple_qap unlucky_pk [1, 3, 9] [9] 1 1 = Inr unlucky_proof"
  by (simp add: zk_prove_def bind_err_simps unlucky_pk_def unlucky_proof_def G_neg3_def
      simple_pk_def simple_proof_def G2_def ec_eval fe_eval
      cong: eval_cong)

lemma verify_unlucky: "zk_verify protocol_curve unlucky_vk unlucky_proof [9] = Inr False"
  by (simp add: zk_verify_def bind_err_simps unlucky_vk_def unlucky_proof_def
      simple_vk_def simple_proof_def G2_def ec_eval fe_eval
      cong: eval_cong)

lemma round_trip_unlucky:
  "round_trip simple_example [1, 3, 9] [9] 2 27888704 2 2 2 1 1 = Inr False"
proof -
  have len: "int (length [9 :: nat]) = 1" by simp
  show ?thesis
    unfolding round_trip_def
    by (simp only: fromR1CS_simple_example bind_err_simps len setup_unlucky fst_conv snd_conv
        prove_unlucky verify_unlucky)
qed

lemma round_trip_zero: "round_trip (new_R1CS 1 1) [0] [] 1 27888707 1 1 1 1 1 = Inr False"
proof -
  have len: "int (length ([] :: nat list)) = 0" by simp
  show ?thesis
    unfolding round_trip_def
    by (simp only: fromR1CS_zero bind_err_simps len setup_zero fst_conv snd_conv
        prove_zero verify_zero)
qed

lemma verify_order_two_0:
  "zk_verify (CurveParams 0 1) order_two_vk plain_proof [0] = Inr True"
  by (simp add: zk_verify_def bind_err_simps order_two_vk_def plain_proof_def ec_eval fe_eval
      cong: eval_cong)

lemma verify_order_two_1:
  "zk_verify (CurveParams 0 1) order_two_vk plain_proof [1] = Inl Cannot_invert_zero"
  by (simp add: zk_verify_def bind_err_simps order_two_vk_def plain_proof_def ec_eval fe_eval
      cong: eval_cong)

lemma setup_zero_one_input:
  "zk_setup zero_qap (new_R1CS 1 1) new_ProvingKey new_VerificationKey 1 1 27888707 1 1 1
     = Inr (zero_pk, zero_vk\<lparr>vk_IC := [G, G2]\<rparr>)"
  by (simp add: zk_setup_def bind_err_simps zero_qap_def new_ProvingKey_def new_VerificationKey_def
      zero_pk_def zero_vk_def evaluate_def fe_add_def fe_mul_def FieldElement_def SMALL_PRIME_def
      G_times upto.simps cong: eval_cong)

subsection \<open>Claims about setup and verify\<close>

text \<open>
  C10: \<open>setup\<close> appends to \<open>vk.IC\<close> exactly \<open>num_public_inputs + 1\<close> points, the
  \<open>i\<close>-th being \<open>G * (i + 1)\<close>; a key passed in empty, as every caller does, ends with
  exactly these. The appended points depend on \<open>num_public_inputs\<close> only: any two
  completed runs of \<open>setup\<close> with the same \<open>num_public_inputs\<close> append the same
  points, whatever the QAP, the constraint system and the five scalars. (The loop
  counter is an \<open>int\<close>, so \<open>num_public_inputs\<close> is below \<open>INT_MAX\<close>.)
\<close>

theorem setup_IC_values:
  assumes "zk_setup qap r1cs pk vk n tau al be ga de = Inr (pk', vk')"
    and "0 \<le> n" and "n < 2147483647"
  shows "(\<exists>pts. vk_IC vk' = vk_IC vk @ pts \<and> length pts = nat (n + 1) \<and>
            (\<forall>i<nat (n + 1). ec_mul protocol_curve G (i + 1) = Inr (pts ! i))) \<and>
         (vk_IC vk = [] \<longrightarrow> length (vk_IC vk') = nat (n + 1)) \<and>
         (\<forall>qap2 r1cs2 pk2 vk2 tau2 al2 be2 ga2 de2 pk2' vk2'.
            zk_setup qap2 r1cs2 pk2 vk2 n tau2 al2 be2 ga2 de2 = Inr (pk2', vk2') \<longrightarrow>
            drop (length (vk_IC vk2)) (vk_IC vk2') = drop (length (vk_IC vk)) (vk_IC vk'))"
proof -
  have key: "\<exists>pts. vk_IC w' = vk_IC w @ pts \<and> length pts = nat (n + 1) \<and>
            (\<forall>i<nat (n + 1). ec_mul protocol_curve G (i + 1) = Inr (pts ! i))"
    if "zk_setup q rr p w n t a b g d = Inr (p', w')" for q rr p w t a b g d p' w'
  proof -
    from setup_IC_append [OF zk_setup_IC [OF that]]
    obtain pts where pts: "vk_IC w' = vk_IC w @ pts" "length pts = length [0..n]"
      "\<forall>k<length [0..n]. ec_mul protocol_curve G (nat ([0..n] ! k + 1)) = Inr (pts ! k)"
      by blast
    have len: "length [0..n] = nat (n + 1)" using \<open>0 \<le> n\<close> by simp
    have "ec_mul protocol_curve G (i + 1) = Inr (pts ! i)" if i: "i < nat (n + 1)" for i
    proof -
      have "[0..n] ! i = int i" using i by simp
      then have "nat ([0..n] ! i + 1) = i + 1" by simp
      then show ?thesis using pts(3) i len by (metis)
    qed
    with pts(1,2) len show ?thesis by auto
  qed
  from key [OF assms(1)] obtain pts where pts: "vk_IC vk' = vk_IC vk @ pts" "length pts = nat (n + 1)"
    "\<forall>i<nat (n + 1). ec_mul protocol_curve G (i + 1) = Inr (pts ! i)" by blast
  have indep: "drop (length (vk_IC vk2)) (vk_IC vk2') = drop (length (vk_IC vk)) (vk_IC vk')"
    if "zk_setup qap2 r1cs2 pk2 vk2 n tau2 al2 be2 ga2 de2 = Inr (pk2', vk2')"
    for qap2 r1cs2 pk2 vk2 tau2 al2 be2 ga2 de2 pk2' vk2'
  proof -
    from key [OF that] obtain pts2 where pts2: "vk_IC vk2' = vk_IC vk2 @ pts2"
      "length pts2 = nat (n + 1)"
      "\<forall>i<nat (n + 1). ec_mul protocol_curve G (i + 1) = Inr (pts2 ! i)" by blast
    have "pts2 = pts"
    proof (rule nth_equalityI)
      show "length pts2 = length pts" using pts(2) pts2(2) by simp
      fix i assume "i < length pts2"
      then have "i < nat (n + 1)" using pts2(2) by simp
      with pts(3) pts2(3) have "Inr (pts2 ! i) = (Inr (pts ! i) :: error + ECPoint)" by metis
      then show "pts2 ! i = pts ! i" by simp
    qed
    then show ?thesis using pts(1) pts2(1) by simp
  qed
  show ?thesis
  proof (intro conjI impI allI)
    show "\<exists>pts. vk_IC vk' = vk_IC vk @ pts \<and> length pts = nat (n + 1) \<and>
            (\<forall>i<nat (n + 1). ec_mul protocol_curve G (i + 1) = Inr (pts ! i))"
      using pts by blast
    show "length (vk_IC vk') = nat (n + 1)" if "vk_IC vk = []"
      using that pts by simp
    show "drop (length (vk_IC vk2)) (vk_IC vk2') = drop (length (vk_IC vk)) (vk_IC vk')"
      if "zk_setup qap2 r1cs2 pk2 vk2 n tau2 al2 be2 ga2 de2 = Inr (pk2', vk2')"
      for qap2 r1cs2 pk2 vk2 tau2 al2 be2 ga2 de2 pk2' vk2'
      using that by (rule indep)
  qed
qed

theorem setup_IC_values_witness:
  "zk_setup simple_qap simple_example new_ProvingKey new_VerificationKey 1 2 2 2 2 2
     = Inr (simple_pk, simple_vk) \<and>
   zk_setup zero_qap (new_R1CS 1 1) new_ProvingKey new_VerificationKey 1 1 27888707 1 1 1
     = Inr (zero_pk, zero_vk\<lparr>vk_IC := [G, G2]\<rparr>) \<and>
   vk_IC new_VerificationKey = [] \<and>
   length (vk_IC simple_vk) = nat (1 + 1) \<and>
   drop (length (vk_IC new_VerificationKey)) (vk_IC (zero_vk\<lparr>vk_IC := [G, G2]\<rparr>))
     = drop (length (vk_IC new_VerificationKey)) (vk_IC simple_vk)"
proof -
  have e: "vk_IC new_VerificationKey = []" by (simp add: new_VerificationKey_def)
  have n: "(0::int) \<le> 1" "(1::int) < 2147483647" by simp_all
  note t = setup_IC_values [OF setup_simple n]
  from t e have "length (vk_IC simple_vk) = nat (1 + 1)" by blast
  moreover from t setup_zero_one_input
  have "drop (length (vk_IC new_VerificationKey)) (vk_IC (zero_vk\<lparr>vk_IC := [G, G2]\<rparr>))
     = drop (length (vk_IC new_VerificationKey)) (vk_IC simple_vk)" by blast
  ultimately show ?thesis using setup_simple setup_zero_one_input e by blast
qed

text \<open>
  C3: \<open>verify\<close> returns true if and only if none of \<open>proof.A\<close>, \<open>proof.B\<close>, \<open>proof.C\<close>
  is the point at infinity. The code misses this: \<open>verify\<close> accumulates \<open>vk_x\<close> before it
  looks at the proof, and the accumulation doubles points through \<open>ECPoint::operator+\<close>,
  whose doubling branch has no guard for \<open>y = 0\<close>. On the curve \<open>y\<^sup>2 = x\<^sup>3 + 1\<close>, with
  the curve point \<open>(-1, 0)\<close> as \<open>vk.IC[1]\<close> and the public input \<open>1\<close>, \<open>verify\<close> raises
  \<open>Cannot invert zero\<close> and returns nothing, although no component of the proof is the
  point at infinity.
\<close>

theorem verify_raises_on_finite_proof:
  "on_curve (CurveParams 0 1) (ECPoint 0 1 False) \<and>
   on_curve (CurveParams 0 1) (ECPoint 2147483646 0 False) \<and>
   none_at_infinity plain_proof \<and>
   zk_verify (CurveParams 0 1) order_two_vk plain_proof [1] = Inl Cannot_invert_zero"
proof (intro conjI)
  show "on_curve (CurveParams 0 1) (ECPoint 0 1 False)"
    "on_curve (CurveParams 0 1) (ECPoint 2147483646 0 False)"
    by (simp_all add: on_curve_def fe_eval)
  show "none_at_infinity plain_proof"
    by (simp add: none_at_infinity_def plain_proof_def)
  show "zk_verify (CurveParams 0 1) order_two_vk plain_proof [1] = Inl Cannot_invert_zero"
    by (rule verify_order_two_1)
qed

text \<open>
  C4: the result of \<open>verify\<close> does not depend on the public inputs. The code misses
  this through the same unguarded doubling: with the same key and the same proof,
  \<open>verify\<close> returns true for the public input \<open>0\<close> (a zero scalar multiplies nothing)
  and raises \<open>Cannot invert zero\<close> for the public input \<open>1\<close>.
\<close>

theorem verify_depends_on_public_inputs:
  "zk_verify (CurveParams 0 1) order_two_vk plain_proof [0] = Inr True \<and>
   zk_verify (CurveParams 0 1) order_two_vk plain_proof [1] = Inl Cannot_invert_zero"
  using verify_order_two_0 verify_order_two_1 by (rule conjI)

subsection \<open>The round trip\<close>

text \<open>
  C2: for a witness that satisfies the constraint system, \<open>verify\<close> applied to the
  result of \<open>prove\<close> returns true. The code misses this for some draws of
  \<open>randomScalar()\<close>. In the run of \<open>simple_example.cpp\<close> (constraint \<open>x * x = out\<close>,
  witness \<open>[1, 3, 9]\<close>, public input \<open>[9]\<close>) the witness part of \<open>proof.A\<close> is \<open>G * 3\<close>;
  when \<open>alpha_scalar\<close> is \<open>27888704\<close> and \<open>r\<close> is \<open>1\<close>, \<open>pk.alpha * r\<close> is the point with
  the same \<open>x\<close> and the opposite \<open>y\<close>, their sum \<open>proof.A\<close> is the point at infinity, and
  \<open>verify\<close> returns false. With \<open>alpha_scalar = 2\<close> and everything else unchanged it
  returns true. The all-zero system \<open>R1CS(1, 1)\<close> with the satisfying witness \<open>[0]\<close>
  fails in the same way when \<open>alpha_scalar\<close> is \<open>27888707\<close>, for which \<open>pk.alpha\<close> is
  itself the point at infinity. All the scalars lie in the range of \<open>randomScalar()\<close>.
\<close>

theorem round_trip_rejects_satisfying_witness:
  "fst (r1cs_verify simple_example [1, 3, 9]) \<and>
   random_scalar 1 \<and> random_scalar 2 \<and> random_scalar 27888704 \<and>
   round_trip simple_example [1, 3, 9] [9] 2 27888704 2 2 2 1 1 = Inr False \<and>
   round_trip simple_example [1, 3, 9] [9] 2 2 2 2 2 1 1 = Inr True \<and>
   fst (r1cs_verify (new_R1CS 1 1) [0]) \<and>
   random_scalar 27888707 \<and>
   round_trip (new_R1CS 1 1) [0] [] 1 27888707 1 1 1 1 1 = Inr False"
proof (intro conjI)
  show "fst (r1cs_verify simple_example [1, 3, 9])"
    by (simp add: r1cs_verify_def simple_example_def row_holds_def dot_product_def fe_add_def
        fe_mul_def FieldElement_def SMALL_PRIME_def upt_0_3)
  show "fst (r1cs_verify (new_R1CS 1 1) [0])"
    by (simp add: r1cs_verify_def new_R1CS_def row_holds_def dot_product_def fe_add_def
        fe_mul_def FieldElement_def)
  show "random_scalar 1" "random_scalar 2" "random_scalar 27888704" "random_scalar 27888707"
    by (simp_all add: random_scalar_def SMALL_PRIME_def)
  show "round_trip simple_example [1, 3, 9] [9] 2 27888704 2 2 2 1 1 = Inr False"
    by (rule round_trip_unlucky)
  show "round_trip simple_example [1, 3, 9] [9] 2 2 2 2 2 1 1 = Inr True"
    by (rule round_trip_simple)
  show "round_trip (new_R1CS 1 1) [0] [] 1 27888707 1 1 1 1 1 = Inr False"
    by (rule round_trip_zero)
qed

section \<open>Field elements as residue classes\<close>

text \<open>
  \<open>to_Fp\<close> turns the operators of \<open>FieldElement\<close> into the ring operations of \<open>Fp\<close>
  and is injective on stored values, so equations between field elements can be
  proved in the ring.
\<close>

lemma SMALL_PRIME_pos: "0 < SMALL_PRIME"
  by (simp add: SMALL_PRIME_def)

lemma to_Fp_mod: "to_Fp (n mod SMALL_PRIME) = to_Fp n"
  unfolding to_Fp_def of_nat_Fp_eq_iff by simp

lemma to_Fp_FieldElement [simp]: "to_Fp (FieldElement n) = of_nat n"
  unfolding FieldElement_def to_Fp_mod by (simp add: to_Fp_def)

lemma to_Fp_add [simp]: "to_Fp (fe_add a b) = to_Fp a + to_Fp b"
  unfolding fe_add_def FieldElement_def to_Fp_mod by (simp add: to_Fp_def)

lemma to_Fp_mul [simp]: "to_Fp (fe_mul a b) = to_Fp a * to_Fp b"
  unfolding fe_mul_def FieldElement_def to_Fp_mod by (simp add: to_Fp_def)

lemma to_Fp_SMALL_PRIME: "to_Fp SMALL_PRIME = 0"
  using to_Fp_mod [of SMALL_PRIME] by (simp add: to_Fp_def)

lemma to_Fp_sub [simp]:
  assumes "valid_fe b"
  shows "to_Fp (fe_sub a b) = to_Fp a - to_Fp b"
proof -
  have le: "b \<le> a + SMALL_PRIME" using assms by (simp add: valid_fe_def)
  have "to_Fp (fe_sub a b) = to_Fp (a + SMALL_PRIME - b)"
    unfolding fe_sub_def FieldElement_def to_Fp_mod ..
  also have "\<dots> = of_nat (a + SMALL_PRIME) - of_nat b"
    using le by (simp add: to_Fp_def)
  also have "\<dots> = to_Fp a + to_Fp SMALL_PRIME - to_Fp b"
    by (simp add: to_Fp_def)
  finally show ?thesis by (simp add: to_Fp_SMALL_PRIME)
qed

lemma to_Fp_inj:
  assumes "valid_fe a" "valid_fe b" "to_Fp a = to_Fp b"
  shows "a = b"
  using assms unfolding to_Fp_def of_nat_Fp_eq_iff valid_fe_def by simp

lemma to_Fp_eq_iff: "valid_fe a \<Longrightarrow> valid_fe b \<Longrightarrow> to_Fp a = to_Fp b \<longleftrightarrow> a = b"
  using to_Fp_inj by blast

lemma valid_FieldElement [simp]: "valid_fe (FieldElement n)"
  by (simp add: valid_fe_def FieldElement_def SMALL_PRIME_pos)

lemma valid_fe_add [simp]: "valid_fe (fe_add a b)"
  by (simp add: fe_add_def)

lemma valid_fe_sub [simp]: "valid_fe (fe_sub a b)"
  by (simp add: fe_sub_def)

lemma valid_fe_mul [simp]: "valid_fe (fe_mul a b)"
  by (simp add: fe_mul_def)

lemma fe_inverse_unit:
  assumes "valid_fe d" "d \<noteq> 0"
  shows "\<exists>c. fe_div (FieldElement 1) d = Inr c \<and> valid_fe c \<and> to_Fp d * to_Fp c = 1"
proof -
  from assms have "0 < d" "d < SMALL_PRIME" by (simp_all add: valid_fe_def)
  from fe_inverse_nonzero [OF this] obtain i where
    i: "fe_inverse d = Inr i" "i < SMALL_PRIME" "fe_mul d i = 1" by blast
  have "to_Fp d * to_Fp i = to_Fp (fe_mul d i)" by simp
  also have "\<dots> = to_Fp 1" by (simp only: i(3))
  also have "\<dots> = 1" by (simp add: to_Fp_def)
  finally have "to_Fp d * to_Fp i = 1" .
  moreover have "fe_div (FieldElement 1) d = Inr (fe_mul (FieldElement 1) i)"
    by (simp add: fe_div_def i(1))
  moreover have "to_Fp (fe_mul (FieldElement 1) i) = to_Fp i" by simp
  ultimately show ?thesis by (intro exI [of _ "fe_mul (FieldElement 1) i"]) simp
qed

section \<open>Polynomial arithmetic\<close>

text \<open>
  Every operation of \<open>Polynomial\<close> is a loop of indexed assignments. Each assignment
  \<open>rc[k] = rc[k] + v\<close> adds the monomial \<open>v X\<^sup>k\<close> to the polynomial function, which gives
  the function of a sum, of a product (the full convolution) and of a scaled
  polynomial, and \<open>evaluate\<close> computes the polynomial function.
\<close>

lemma poly_fun_sum: "poly_fun cs X = (\<Sum>i<length cs. cs ! i * X ^ i)"
proof (induction cs)
  case Nil
  show ?case by simp
next
  case (Cons c cs)
  have "(\<Sum>i<length (c # cs). (c # cs) ! i * X ^ i)
      = c + (\<Sum>i<length cs. cs ! i * X ^ Suc i)"
    using sum.lessThan_Suc_shift [of "\<lambda>i. (c # cs) ! i * X ^ i" "length cs"] by simp
  also have "(\<Sum>i<length cs. cs ! i * X ^ Suc i) = X * (\<Sum>i<length cs. cs ! i * X ^ i)"
    by (simp add: sum_distrib_left mult.assoc mult.left_commute)
  finally show ?case by (simp add: Cons.IH)
qed

lemma poly_fun_replicate_zero [simp]: "poly_fun (replicate n 0) X = 0"
  by (induction n) simp_all

lemma poly_fun_update:
  "k < length cs \<Longrightarrow> poly_fun (cs[k := cs ! k + v]) X = poly_fun cs X + v * X ^ k"
proof (induction cs arbitrary: k)
  case Nil
  then show ?case by simp
next
  case (Cons c cs)
  show ?case
  proof (cases k)
    case 0
    then show ?thesis by simp
  next
    case (Suc m)
    with Cons.prems have "m < length cs" by simp
    from Cons.IH [OF this] show ?thesis using Suc by (simp add: algebra_simps)
  qed
qed

lemma poly_fun_scale: "poly_fun (map (\<lambda>c. c * s) cs) X = poly_fun cs X * s"
  by (induction cs) (simp_all add: algebra_simps)

lemma fold_evaluate:
  "to_Fp (fst (fold (\<lambda>coeff (result, x_power).
                      (fe_add result (fe_mul coeff x_power), fe_mul x_power x)) p (r, xp)))
     = to_Fp r + to_Fp xp * poly_fun (map to_Fp p) (to_Fp x)"
proof (induction p arbitrary: r xp)
  case Nil
  show ?case by simp
next
  case (Cons c cs)
  show ?case by (simp add: Cons.IH algebra_simps)
qed

lemma to_Fp_evaluate: "to_Fp (evaluate p x) = poly_fun (map to_Fp p) (to_Fp x)"
  unfolding evaluate_def fold_evaluate by simp

lemma fold_evaluate_valid:
  "valid_fe r \<Longrightarrow>
   valid_fe (fst (fold (\<lambda>coeff (result, x_power).
                      (fe_add result (fe_mul coeff x_power), fe_mul x_power x)) p (r, xp)))"
  by (induction p arbitrary: r xp) simp_all

lemma valid_evaluate [simp]: "valid_fe (evaluate p x)"
  unfolding evaluate_def by (rule fold_evaluate_valid) simp

lemma poly_fun_update_add:
  assumes "k < length rc"
  shows "poly_fun (map to_Fp (rc[k := fe_add (rc ! k) v])) X
           = poly_fun (map to_Fp rc) X + to_Fp v * X ^ k"
proof -
  have "map to_Fp (rc[k := fe_add (rc ! k) v]) = (map to_Fp rc)[k := (map to_Fp rc) ! k + to_Fp v]"
    using assms by (simp add: map_update)
  moreover have "poly_fun ((map to_Fp rc)[k := (map to_Fp rc) ! k + to_Fp v]) X
      = poly_fun (map to_Fp rc) X + to_Fp v * X ^ k"
    using assms by (intro poly_fun_update) simp
  ultimately show ?thesis by (simp only:)
qed

lemma fold_add_loop:
  assumes "off + n \<le> length rc"
  shows "length (fold (\<lambda>j rc. rc[off + j := fe_add (rc ! (off + j)) (g j)]) [0..<n] rc) = length rc \<and>
         poly_fun (map to_Fp (fold (\<lambda>j rc. rc[off + j := fe_add (rc ! (off + j)) (g j)]) [0..<n] rc)) X
           = poly_fun (map to_Fp rc) X + (\<Sum>j<n. to_Fp (g j) * X ^ (off + j))"
  using assms
proof (induction n)
  case 0
  show ?case by simp
next
  case (Suc n)
  let ?f = "\<lambda>j rc. rc[off + j := fe_add (rc ! (off + j)) (g j)]"
  from Suc.prems have le: "off + n \<le> length rc" by simp
  note IH = Suc.IH [OF le]
  have step: "fold ?f [0..<Suc n] rc = ?f n (fold ?f [0..<n] rc)" by simp
  have k: "off + n < length (fold ?f [0..<n] rc)" using IH Suc.prems by simp
  show ?case
    unfolding step using IH poly_fun_update_add [OF k, of "g n" X]
    by (simp add: algebra_simps)
qed

lemma poly_fun_nth_sum:
  "poly_fun (map to_Fp p) X = (\<Sum>i<length p. to_Fp (p ! i) * X ^ i)"
  unfolding poly_fun_sum by simp

lemma poly_fun_zeros [simp]: "poly_fun (map to_Fp (replicate n (FieldElement 0))) X = 0"
  by (simp add: FieldElement_def to_Fp_def)

lemma poly_add_fun:
  "poly_fun (map to_Fp (poly_add p q)) X = poly_fun (map to_Fp p) X + poly_fun (map to_Fp q) X"
proof -
  let ?z = "replicate (max (length p) (length q)) (FieldElement 0)"
  let ?r1 = "fold (\<lambda>i rc. rc[i := fe_add (rc ! i) (p ! i)]) [0..<length p] ?z"
  have 1: "length ?r1 = length ?z \<and>
           poly_fun (map to_Fp ?r1) X = poly_fun (map to_Fp ?z) X + (\<Sum>i<length p. to_Fp (p ! i) * X ^ (0 + i))"
    using fold_add_loop [of 0 "length p" ?z "\<lambda>i. p ! i" X] by simp
  have 2: "poly_fun (map to_Fp (fold (\<lambda>i rc. rc[i := fe_add (rc ! i) (q ! i)]) [0..<length q] ?r1)) X
             = poly_fun (map to_Fp ?r1) X + (\<Sum>i<length q. to_Fp (q ! i) * X ^ (0 + i))"
    using fold_add_loop [of 0 "length q" ?r1 "\<lambda>i. q ! i" X] 1 by simp
  note pf = poly_fun_nth_sum [of p X] poly_fun_nth_sum [of q X]
  show ?thesis
    unfolding poly_add_def using 1 2 by (simp add: pf)
qed

lemma poly_mul_outer:
  assumes "m \<le> length p" and "length rc = length p + length q - 1" and "q \<noteq> []"
  shows "length (fold (\<lambda>i rc. fold (\<lambda>j rc. rc[i + j := fe_add (rc ! (i + j)) (fe_mul (p ! i) (q ! j))])
                              [0..<length q] rc) [0..<m] rc) = length rc \<and>
         poly_fun (map to_Fp (fold (\<lambda>i rc. fold (\<lambda>j rc. rc[i + j := fe_add (rc ! (i + j)) (fe_mul (p ! i) (q ! j))])
                              [0..<length q] rc) [0..<m] rc)) X
           = poly_fun (map to_Fp rc) X
             + (\<Sum>i<m. \<Sum>j<length q. to_Fp (p ! i) * to_Fp (q ! j) * X ^ (i + j))"
  using assms(1)
proof (induction m)
  case 0
  show ?case by simp
next
  case (Suc m)
  let ?inner = "\<lambda>i rc. fold (\<lambda>j rc. rc[i + j := fe_add (rc ! (i + j)) (fe_mul (p ! i) (q ! j))])
                              [0..<length q] rc"
  from Suc.prems have le: "m \<le> length p" and lt: "m < length p" by simp_all
  note IH = Suc.IH [OF le]
  let ?rc = "fold ?inner [0..<m] rc"
  have step: "fold ?inner [0..<Suc m] rc = ?inner m ?rc" by simp
  have "0 < length q" using assms(3) by simp
  then have bound: "m + length q \<le> length ?rc" using IH assms(2) lt by simp
  from fold_add_loop [OF bound, of "\<lambda>j. fe_mul (p ! m) (q ! j)" X]
  have inner: "length (?inner m ?rc) = length ?rc"
    "poly_fun (map to_Fp (?inner m ?rc)) X
       = poly_fun (map to_Fp ?rc) X + (\<Sum>j<length q. to_Fp (fe_mul (p ! m) (q ! j)) * X ^ (m + j))"
    by simp_all
  show ?case
    unfolding step using IH inner by (simp add: algebra_simps)
qed

lemma poly_mul_fun:
  "poly_fun (map to_Fp (poly_mul p q)) X = poly_fun (map to_Fp p) X * poly_fun (map to_Fp q) X"
proof (cases "p = [] \<or> q = []")
  case True
  then show ?thesis by (auto simp: poly_mul_def)
next
  case False
  then have q: "q \<noteq> []" by simp
  let ?z = "replicate (length p + length q - 1) (FieldElement 0)"
  have "poly_fun (map to_Fp (poly_mul p q)) X
      = (\<Sum>i<length p. \<Sum>j<length q. to_Fp (p ! i) * to_Fp (q ! j) * X ^ (i + j))"
    unfolding poly_mul_def using False poly_mul_outer [of "length p" p ?z q X] by simp
  also have "\<dots> = (\<Sum>i<length p. to_Fp (p ! i) * X ^ i) * (\<Sum>j<length q. to_Fp (q ! j) * X ^ j)"
    by (simp add: sum_product power_add algebra_simps)
  finally show ?thesis by (simp only: poly_fun_nth_sum [of p X] poly_fun_nth_sum [of q X])
qed

lemma fold_set_loop:
  assumes "n \<le> length rc"
  shows "fold (\<lambda>i rc. rc[i := g i]) [0..<n] rc = map g [0..<n] @ drop n rc"
  using assms
proof (induction n)
  case 0
  show ?case by simp
next
  case (Suc n)
  then have lt: "n < length rc" by simp
  have "fold (\<lambda>i rc. rc[i := g i]) [0..<Suc n] rc = (map g [0..<n] @ drop n rc)[n := g n]"
    using Suc by simp
  also have "\<dots> = map g [0..<n] @ (drop n rc)[0 := g n]"
    by (simp add: list_update_append)
  also have "(drop n rc)[0 := g n] = g n # drop (Suc n) rc"
    using lt by (metis Cons_nth_drop_Suc list_update_code(2))
  finally show ?case by simp
qed

lemma poly_scale_map: "poly_scale p s = map (\<lambda>c. fe_mul c s) p"
proof -
  have "fold (\<lambda>i rc. rc[i := fe_mul (p ! i) s]) [0..<length p] (replicate (length p) (FieldElement 0))
      = map (\<lambda>i. fe_mul (p ! i) s) [0..<length p] @ drop (length p) (replicate (length p) (FieldElement 0))"
    by (rule fold_set_loop) simp
  then have "poly_scale p s = map (\<lambda>i. fe_mul (p ! i) s) [0..<length p]"
    unfolding poly_scale_def by simp
  also have "\<dots> = map (\<lambda>c. fe_mul c s) p"
    by (rule nth_equalityI) simp_all
  finally show ?thesis .
qed

lemma poly_scale_fun:
  "poly_fun (map to_Fp (poly_scale p s)) X = poly_fun (map to_Fp p) X * to_Fp s"
proof -
  have "map to_Fp (poly_scale p s) = map (\<lambda>c. c * to_Fp s) (map to_Fp p)"
    by (simp add: poly_scale_map)
  then show ?thesis by (simp only: poly_fun_scale)
qed

section \<open>Lagrange interpolation\<close>

text \<open>
  With \<open>D = \<Prod>\<^sub>i\<^sub>\<noteq>\<^sub>j (x\<^sub>j - x\<^sub>i)\<close>, the loop of \<open>basisPolynomial\<close> keeps
  \<open>L\<^sub>j(X) * D = \<Prod>\<^sub>i\<^sub>\<noteq>\<^sub>j (X - x\<^sub>i)\<close>; no division raises because the points are distinct,
  and \<open>D\<close> is a unit, so \<open>L\<^sub>j\<close> is \<open>1\<close> at \<open>x\<^sub>j\<close> and \<open>0\<close> at the other points.
\<close>

lemma prod_list_unit:
  fixes f :: "'a \<Rightarrow> Fp"
  assumes "\<forall>i\<in>set is. \<exists>c. f i * c = 1"
  shows "\<exists>c. prod_list (map f is) * c = 1"
  using assms
proof (induction "is")
  case Nil
  show ?case by simp
next
  case (Cons i rest)
  then obtain c where c: "f i * c = 1" by auto
  from Cons obtain c' where c': "prod_list (map f rest) * c' = 1" by auto
  have "prod_list (map f (i # rest)) * (c * c') = (f i * c) * (prod_list (map f rest) * c')"
    by (simp add: algebra_simps)
  then show ?case using c c' by (intro exI [of _ "c * c'"]) simp
qed

lemma prod_list_zero:
  fixes zs :: "Fp list"
  assumes "0 \<in> set zs"
  shows "prod_list zs = 0"
  using assms by (induction zs) auto

lemma fe_sub_nonzero:
  assumes "valid_fe a" "valid_fe b" "a \<noteq> b"
  shows "fe_sub a b \<noteq> 0" and "to_Fp a - to_Fp b \<noteq> 0"
proof -
  show ne: "to_Fp a - to_Fp b \<noteq> 0" using assms to_Fp_inj by fastforce
  show "fe_sub a b \<noteq> 0"
  proof
    assume "fe_sub a b = 0"
    then have "to_Fp (fe_sub a b) = 0" by (simp add: to_Fp_def)
    then show False using ne assms(2) by simp
  qed
qed

lemma basis_loop_fun:
  assumes valid: "\<forall>v\<in>set xs. valid_fe v" and j: "j < length xs"
    and idx: "\<forall>i\<in>set is. i < length xs"
    and dist: "\<forall>i\<in>set is. i \<noteq> j \<longrightarrow> xs ! i \<noteq> xs ! j"
  shows "\<exists>b. basis_loop j xs is result = Inr b \<and>
           (\<forall>X. poly_fun (map to_Fp b) X
                   * prod_list (map (\<lambda>i. to_Fp (xs ! j) - to_Fp (xs ! i)) (filter (\<lambda>i. i \<noteq> j) is))
                 = poly_fun (map to_Fp result) X
                   * prod_list (map (\<lambda>i. X - to_Fp (xs ! i)) (filter (\<lambda>i. i \<noteq> j) is)))"
  using idx dist
proof (induction "is" arbitrary: result)
  case Nil
  show ?case by simp
next
  case (Cons i rest)
  have rest: "\<forall>i\<in>set rest. i < length xs" "\<forall>i\<in>set rest. i \<noteq> j \<longrightarrow> xs ! i \<noteq> xs ! j"
    using Cons.prems by simp_all
  show ?case
  proof (cases "i = j")
    case True
    with Cons.IH [OF rest, of result] show ?thesis by simp
  next
    case False
    have vi: "valid_fe (xs ! i)" and vj: "valid_fe (xs ! j)"
      using valid j Cons.prems(1) by simp_all
    have ne: "xs ! j \<noteq> xs ! i" using Cons.prems(2) False by auto
    let ?d = "fe_sub (xs ! j) (xs ! i)"
    have "?d \<noteq> 0" using vj vi ne by (rule fe_sub_nonzero)
    from fe_inverse_unit [OF _ this] obtain c where
      c: "fe_div (FieldElement 1) ?d = Inr c" and dc: "to_Fp ?d * to_Fp c = 1"
      by auto
    have dc': "(to_Fp (xs ! j) - to_Fp (xs ! i)) * to_Fp c = 1" using dc vi by simp
    let ?r = "poly_scale (poly_mul result [fe_sub (FieldElement 0) (xs ! i), FieldElement 1]) c"
    have r: "poly_fun (map to_Fp ?r) X = poly_fun (map to_Fp result) X * (X - to_Fp (xs ! i)) * to_Fp c"
      for X
      using vi by (simp add: poly_scale_fun poly_mul_fun algebra_simps)
    from Cons.IH [OF rest, of ?r] obtain b where
      b: "basis_loop j xs rest ?r = Inr b" and
      bf: "\<And>X. poly_fun (map to_Fp b) X
                   * prod_list (map (\<lambda>i. to_Fp (xs ! j) - to_Fp (xs ! i)) (filter (\<lambda>i. i \<noteq> j) rest))
                 = poly_fun (map to_Fp ?r) X
                   * prod_list (map (\<lambda>i. X - to_Fp (xs ! i)) (filter (\<lambda>i. i \<noteq> j) rest))"
      by blast
    have run: "basis_loop j xs (i # rest) result = Inr b"
      using False c b by simp
    have "poly_fun (map to_Fp b) X
            * prod_list (map (\<lambda>i. to_Fp (xs ! j) - to_Fp (xs ! i)) (filter (\<lambda>i. i \<noteq> j) (i # rest)))
          = poly_fun (map to_Fp result) X
            * prod_list (map (\<lambda>i. X - to_Fp (xs ! i)) (filter (\<lambda>i. i \<noteq> j) (i # rest)))" for X
    proof -
      let ?D = "prod_list (map (\<lambda>i. to_Fp (xs ! j) - to_Fp (xs ! i)) (filter (\<lambda>i. i \<noteq> j) rest))"
      let ?N = "prod_list (map (\<lambda>i. X - to_Fp (xs ! i)) (filter (\<lambda>i. i \<noteq> j) rest))"
      have "poly_fun (map to_Fp b) X * ((to_Fp (xs ! j) - to_Fp (xs ! i)) * ?D)
          = (to_Fp (xs ! j) - to_Fp (xs ! i)) * (poly_fun (map to_Fp b) X * ?D)"
        by (simp add: algebra_simps)
      also have "\<dots> = (to_Fp (xs ! j) - to_Fp (xs ! i)) * (poly_fun (map to_Fp ?r) X * ?N)"
        by (simp only: bf)
      also have "\<dots> = ((to_Fp (xs ! j) - to_Fp (xs ! i)) * to_Fp c)
                        * (poly_fun (map to_Fp result) X * ((X - to_Fp (xs ! i)) * ?N))"
        unfolding r by (simp add: mult.assoc mult.left_commute mult.commute)
      also have "\<dots> = poly_fun (map to_Fp result) X * ((X - to_Fp (xs ! i)) * ?N)"
        unfolding dc' by simp
      finally show ?thesis using False by simp
    qed
    with run show ?thesis by blast
  qed
qed

lemma basisPolynomial_value:
  assumes valid: "\<forall>v\<in>set xs. valid_fe v" and dist: "distinct xs" and j: "j < length xs"
  shows "\<exists>b. basisPolynomial j xs = Inr b \<and>
           (\<forall>k<length xs. poly_fun (map to_Fp b) (to_Fp (xs ! k)) = (if k = j then 1 else 0))"
proof -
  let ?is = "filter (\<lambda>i. i \<noteq> j) [0..<length xs]"
  let ?D = "prod_list (map (\<lambda>i. to_Fp (xs ! j) - to_Fp (xs ! i)) ?is)"
  have d: "\<forall>i\<in>set [0..<length xs]. i \<noteq> j \<longrightarrow> xs ! i \<noteq> xs ! j"
    using dist j by (auto simp: nth_eq_iff_index_eq)
  from basis_loop_fun [OF valid j _ d, of "[FieldElement 1]"] obtain b where
    b: "basisPolynomial j xs = Inr b" and
    bf: "\<And>X. poly_fun (map to_Fp b) X * ?D = prod_list (map (\<lambda>i. X - to_Fp (xs ! i)) ?is)"
    unfolding basisPolynomial_def by auto
  have "\<forall>i\<in>set ?is. \<exists>c. (to_Fp (xs ! j) - to_Fp (xs ! i)) * c = 1"
  proof
    fix i assume i: "i \<in> set ?is"
    then have vi: "valid_fe (xs ! i)" and vj: "valid_fe (xs ! j)" using valid j by simp_all
    from i d have ne: "xs ! j \<noteq> xs ! i" by auto
    have "fe_sub (xs ! j) (xs ! i) \<noteq> 0" using vj vi ne by (rule fe_sub_nonzero)
    from fe_inverse_unit [OF _ this] obtain c where "to_Fp (fe_sub (xs ! j) (xs ! i)) * to_Fp c = 1"
      by auto
    then show "\<exists>c. (to_Fp (xs ! j) - to_Fp (xs ! i)) * c = 1" using vi by auto
  qed
  from prod_list_unit [OF this] obtain D' where D': "?D * D' = 1" by blast
  have val: "poly_fun (map to_Fp b) X = prod_list (map (\<lambda>i. X - to_Fp (xs ! i)) ?is) * D'" for X
  proof -
    have "poly_fun (map to_Fp b) X = poly_fun (map to_Fp b) X * (?D * D')" by (simp only: D' mult_1_right)
    also have "\<dots> = (poly_fun (map to_Fp b) X * ?D) * D'" by (simp only: mult.assoc)
    finally show ?thesis by (simp only: bf)
  qed
  have "poly_fun (map to_Fp b) (to_Fp (xs ! k)) = (if k = j then 1 else 0)" if k: "k < length xs" for k
  proof (cases "k = j")
    case True
    then show ?thesis using val [of "to_Fp (xs ! j)"] D' by simp
  next
    case False
    then have "k \<in> set ?is" using k by simp
    then have "0 \<in> set (map (\<lambda>i. to_Fp (xs ! k) - to_Fp (xs ! i)) ?is)"
      by (auto simp: image_iff intro!: bexI [of _ k])
    then have "prod_list (map (\<lambda>i. to_Fp (xs ! k) - to_Fp (xs ! i)) ?is) = 0"
      by (rule prod_list_zero)
    then show ?thesis using val [of "to_Fp (xs ! k)"] False by simp
  qed
  with b show ?thesis by blast
qed

lemma interpolate_loop_fun:
  assumes valid: "\<forall>v\<in>set xs. valid_fe v" and dist: "distinct xs"
    and idx: "\<forall>j\<in>set js. j < length xs"
  shows "\<exists>r. interpolate_loop xs ys js result = Inr r \<and>
           (\<forall>k<length xs. poly_fun (map to_Fp r) (to_Fp (xs ! k))
               = poly_fun (map to_Fp result) (to_Fp (xs ! k))
                 + sum_list (map (\<lambda>j. if k = j then to_Fp (ys ! j) else 0) js))"
  using idx
proof (induction js arbitrary: result)
  case Nil
  show ?case by simp
next
  case (Cons j rest)
  then have j: "j < length xs" and rest: "\<forall>j\<in>set rest. j < length xs" by simp_all
  from basisPolynomial_value [OF valid dist j] obtain b where
    b: "basisPolynomial j xs = Inr b" and
    bv: "\<And>k. k < length xs \<Longrightarrow> poly_fun (map to_Fp b) (to_Fp (xs ! k)) = (if k = j then 1 else 0)"
    by blast
  let ?r = "poly_add result (poly_scale b (ys ! j))"
  from Cons.IH [OF rest, of ?r] obtain r where
    r: "interpolate_loop xs ys rest ?r = Inr r" and
    rv: "\<And>k. k < length xs \<Longrightarrow> poly_fun (map to_Fp r) (to_Fp (xs ! k))
               = poly_fun (map to_Fp ?r) (to_Fp (xs ! k))
                 + sum_list (map (\<lambda>j. if k = j then to_Fp (ys ! j) else 0) rest)"
    by blast
  have "interpolate_loop xs ys (j # rest) result = Inr r" using b r by simp
  moreover have "poly_fun (map to_Fp r) (to_Fp (xs ! k))
               = poly_fun (map to_Fp result) (to_Fp (xs ! k))
                 + sum_list (map (\<lambda>j. if k = j then to_Fp (ys ! j) else 0) (j # rest))"
    if k: "k < length xs" for k
    using rv [OF k] bv [OF k] by (simp add: poly_add_fun poly_scale_fun)
  ultimately show ?case by blast
qed

lemma sum_list_delta:
  fixes f :: "nat \<Rightarrow> Fp"
  assumes "k < n"
  shows "sum_list (map (\<lambda>j. if k = j then f j else 0) [0..<n]) = f k"
proof -
  have "sum_list (map (\<lambda>j. if k = j then f j else 0) [0..<n])
      = (\<Sum>j\<in>set [0..<n]. if k = j then f j else 0)"
    by (rule interv_sum_list_conv_sum_set_nat)
  also have "\<dots> = f k" using assms by simp
  finally show ?thesis .
qed

lemma interpolate_values:
  assumes "distinct xs" and "length xs = length ys"
    and "\<forall>v\<in>set xs. valid_fe v" and "\<forall>v\<in>set ys. valid_fe v"
  shows "\<exists>P. interpolate xs ys = Inr P \<and> (\<forall>i<length xs. evaluate P (xs ! i) = ys ! i)"
proof -
  from interpolate_loop_fun [OF assms(3) assms(1), of "[0..<length xs]" ys "[FieldElement 0]"]
  obtain P where
    P: "interpolate_loop xs ys [0..<length xs] [FieldElement 0] = Inr P" and
    Pv: "\<And>k. k < length xs \<Longrightarrow> poly_fun (map to_Fp P) (to_Fp (xs ! k))
               = poly_fun (map to_Fp [FieldElement 0]) (to_Fp (xs ! k))
                 + sum_list (map (\<lambda>j. if k = j then to_Fp (ys ! j) else 0) [0..<length xs])"
    by auto
  have "interpolate xs ys = Inr P" using P assms(2) by (simp add: interpolate_def)
  moreover have "evaluate P (xs ! i) = ys ! i" if i: "i < length xs" for i
  proof (rule to_Fp_inj)
    show "valid_fe (evaluate P (xs ! i))" by simp
    show "valid_fe (ys ! i)" using assms(2,4) i by simp
    show "to_Fp (evaluate P (xs ! i)) = to_Fp (ys ! i)"
      unfolding to_Fp_evaluate Pv [OF i] sum_list_delta [OF i] by simp
  qed
  ultimately show ?thesis by blast
qed

text \<open>
  C6: for pairwise distinct field elements \<open>xs\<close> and field elements \<open>ys\<close> of the same
  length, \<open>interpolate(xs, ys)\<close> returns a polynomial that evaluates to \<open>ys[i]\<close> at
  \<open>xs[i]\<close> for every index \<open>i\<close>.
\<close>

theorem interpolate_round_trip:
  assumes "distinct xs" and "length xs = length ys"
    and "\<forall>v\<in>set xs. valid_fe v" and "\<forall>v\<in>set ys. valid_fe v"
  shows "\<exists>P. interpolate xs ys = Inr P \<and> (\<forall>i<length xs. evaluate P (xs ! i) = ys ! i)"
  using assms by (rule interpolate_values)

theorem interpolate_round_trip_witness:
  "distinct [1, 2 :: nat] \<and> length [1, 2 :: nat] = length [5, 7 :: nat] \<and>
   valid_fe 1 \<and> valid_fe 2 \<and> valid_fe 5 \<and> valid_fe 7 \<and>
   (\<exists>P. interpolate [1, 2] [5, 7] = Inr P \<and> evaluate P 1 = 5 \<and> evaluate P 2 = 7)"
proof -
  have h1: "distinct [1, 2 :: nat]" and h2: "length [1, 2 :: nat] = length [5, 7 :: nat]"
    by simp_all
  have v: "valid_fe 1" "valid_fe 2" "valid_fe 5" "valid_fe 7"
    by (simp_all add: valid_fe_def SMALL_PRIME_def)
  then have h3: "\<forall>v\<in>set [1, 2 :: nat]. valid_fe v" and h4: "\<forall>v\<in>set [5, 7 :: nat]. valid_fe v"
    by simp_all
  from interpolate_round_trip [OF h1 h2 h3 h4] obtain P where
    P: "interpolate [1, 2] [5, 7] = Inr P" and
    Pv: "\<forall>i<length [1, 2 :: nat]. evaluate P ([1, 2] ! i) = [5, 7] ! i"
    by blast
  from Pv [rule_format, of 0] have "evaluate P 1 = 5" by simp
  moreover from Pv [rule_format, of 1] have "evaluate P 2 = 7" by simp
  ultimately have "evaluate P 1 = 5" "evaluate P 2 = 7" by simp_all
  with P h1 h2 v show ?thesis by blast
qed

section \<open>From constraint satisfaction to polynomial identities\<close>

text \<open>
  \<open>num_constraints\<close> is an \<open>int\<close>, hence at most \<open>2^31 - 1 = SMALL_PRIME\<close>, so the
  evaluation points \<open>FieldElement(1), ..., FieldElement(num_constraints)\<close> are pairwise
  distinct and every interpolation of \<open>fromR1CS\<close> succeeds.
\<close>

lemma evaluation_points_distinct:
  assumes "nc \<le> 2147483647"
  shows "distinct (evaluation_points nc)"
proof -
  have "inj_on (\<lambda>i. FieldElement (i + 1)) (set [0..<nat nc])"
  proof (rule inj_onI)
    fix i j assume i: "i \<in> set [0..<nat nc]" and j: "j \<in> set [0..<nat nc]"
      and e: "FieldElement (i + 1) = FieldElement (j + 1)"
    have bi: "i < SMALL_PRIME" and bj: "j < SMALL_PRIME"
      using i j assms by (simp_all add: SMALL_PRIME_def)
    have aux: "p = q" if "p \<le> q" "q < SMALL_PRIME" "(p + 1) mod SMALL_PRIME = (q + 1) mod SMALL_PRIME"
      for p q :: nat
    proof -
      have "SMALL_PRIME dvd (q + 1) - (p + 1)"
        using that(1,3) by (metis mod_eq_dvd_iff_nat add_le_mono1)
      then have "SMALL_PRIME dvd q - p" by simp
      moreover have "q - p < SMALL_PRIME" using that(2) by simp
      ultimately have "q - p = 0" by (meson dvd_imp_le not_le zero_less_iff_neq_zero)
      with that(1) show ?thesis by simp
    qed
    from e have m: "(i + 1) mod SMALL_PRIME = (j + 1) mod SMALL_PRIME"
      by (simp add: FieldElement_def)
    show "i = j"
    proof (cases "i \<le> j")
      case True
      then show ?thesis using aux [OF True bj m] by simp
    next
      case False
      then have "j \<le> i" by simp
      from aux [OF this bi m [symmetric]] show ?thesis by simp
    qed
  qed
  then show ?thesis by (simp add: evaluation_points_def distinct_map)
qed

lemma evaluation_points_valid: "\<forall>v\<in>set (evaluation_points nc). valid_fe v"
  by (auto simp: evaluation_points_def)

lemma evaluation_points_length [simp]: "length (evaluation_points nc) = nat nc"
  by (simp add: evaluation_points_def)

lemma evaluation_points_nth: "k < nat nc \<Longrightarrow> evaluation_points nc ! k = FieldElement (k + 1)"
  by (simp add: evaluation_points_def)

lemma column_valid:
  assumes "wf_matrix nc nv M" and "var < nat nv"
  shows "\<forall>v\<in>set (column M nc var). valid_fe v"
proof
  fix v assume "v \<in> set (column M nc var)"
  then obtain c where c: "c < nat nc" and v: "v = M ! c ! var" by (auto simp: column_def)
  from assms(1) c have "M ! c \<in> set M" by (simp add: wf_matrix_def) (metis nat_int nth_mem)
  with assms(1) have "int (length (M ! c)) = nv" and "\<forall>u\<in>set (M ! c). valid_fe u"
    by (simp_all add: wf_matrix_def)
  then show "valid_fe v" using assms(2) v by (metis nat_int nth_mem)
qed

lemma column_length [simp]: "length (column M nc var) = nat nc"
  by (simp add: column_def)

lemma column_nth: "k < nat nc \<Longrightarrow> column M nc var ! k = M ! k ! var"
  by (simp add: column_def)

lemma interpolate_column:
  assumes "wf_matrix nc nv M" and "var < nat nv" and "nc \<le> 2147483647"
  shows "\<exists>P. interpolate (evaluation_points nc) (column M nc var) = Inr P \<and>
           (\<forall>k<nat nc. evaluate P (FieldElement (k + 1)) = M ! k ! var)"
proof -
  have "length (evaluation_points nc) = length (column M nc var)" by simp
  from interpolate_values [OF evaluation_points_distinct [OF assms(3)] this
      evaluation_points_valid column_valid [OF assms(1,2)]]
  obtain P where P: "interpolate (evaluation_points nc) (column M nc var) = Inr P"
    and Pv: "\<forall>i<length (evaluation_points nc).
               evaluate P (evaluation_points nc ! i) = column M nc var ! i"
    by auto
  have "evaluate P (FieldElement (k + 1)) = M ! k ! var" if "k < nat nc" for k
    using Pv that by (simp add: evaluation_points_nth column_nth)
  with P show ?thesis by blast
qed

lemma fromR1CS_loop_result:
  assumes "\<forall>var\<in>set vars.
             (\<exists>P. interpolate xs (column (r1cs_A r) (r1cs_num_constraints r) var) = Inr P) \<and>
             (\<exists>P. interpolate xs (column (r1cs_B r) (r1cs_num_constraints r) var) = Inr P) \<and>
             (\<exists>P. interpolate xs (column (r1cs_C r) (r1cs_num_constraints r) var) = Inr P)"
  shows "fromR1CS_loop r xs vars qap =
           Inr (qap\<lparr>qap_A_polys := qap_A_polys qap @
                       map (\<lambda>var. projr (interpolate xs (column (r1cs_A r) (r1cs_num_constraints r) var))) vars,
                     qap_B_polys := qap_B_polys qap @
                       map (\<lambda>var. projr (interpolate xs (column (r1cs_B r) (r1cs_num_constraints r) var))) vars,
                     qap_C_polys := qap_C_polys qap @
                       map (\<lambda>var. projr (interpolate xs (column (r1cs_C r) (r1cs_num_constraints r) var))) vars\<rparr>)"
  using assms
proof (induction vars arbitrary: qap)
  case Nil
  show ?case by simp
next
  case (Cons var rest)
  from Cons.prems obtain pa pb pc where
    p: "interpolate xs (column (r1cs_A r) (r1cs_num_constraints r) var) = Inr pa"
       "interpolate xs (column (r1cs_B r) (r1cs_num_constraints r) var) = Inr pb"
       "interpolate xs (column (r1cs_C r) (r1cs_num_constraints r) var) = Inr pc"
    by auto
  have rest: "\<forall>var\<in>set rest.
             (\<exists>P. interpolate xs (column (r1cs_A r) (r1cs_num_constraints r) var) = Inr P) \<and>
             (\<exists>P. interpolate xs (column (r1cs_B r) (r1cs_num_constraints r) var) = Inr P) \<and>
             (\<exists>P. interpolate xs (column (r1cs_C r) (r1cs_num_constraints r) var) = Inr P)"
    using Cons.prems by simp
  show ?case
    by (simp add: p Cons.IH [OF rest])
qed

lemma computePolynomials_fun:
  "case fold (\<lambda>i (A_x, B_x, C_x).
             (poly_add A_x (poly_scale (qap_A_polys qap ! i) (w ! i)),
              poly_add B_x (poly_scale (qap_B_polys qap ! i) (w ! i)),
              poly_add C_x (poly_scale (qap_C_polys qap ! i) (w ! i))))
          [0..<n] ([FieldElement 0], [FieldElement 0], [FieldElement 0]) of
     (A_x, B_x, C_x) \<Rightarrow>
       poly_fun (map to_Fp A_x) X = (\<Sum>i<n. poly_fun (map to_Fp (qap_A_polys qap ! i)) X * to_Fp (w ! i)) \<and>
       poly_fun (map to_Fp B_x) X = (\<Sum>i<n. poly_fun (map to_Fp (qap_B_polys qap ! i)) X * to_Fp (w ! i)) \<and>
       poly_fun (map to_Fp C_x) X = (\<Sum>i<n. poly_fun (map to_Fp (qap_C_polys qap ! i)) X * to_Fp (w ! i))"
proof (induction n)
  case 0
  show ?case by (simp add: FieldElement_def to_Fp_def)
next
  case (Suc n)
  then show ?case
    by (simp add: poly_add_fun poly_scale_fun split: prod.splits)
qed

lemma to_Fp_dot_product:
  "to_Fp (dot_product row w nv) = (\<Sum>j<nat nv. to_Fp (row ! j) * to_Fp (w ! j))"
  unfolding dot_product_sum spec_dot_def to_Fp_mod by (simp add: to_Fp_def)

lemma valid_dot_product [simp]: "valid_fe (dot_product row w nv)"
  unfolding dot_product_sum spec_dot_def by (simp add: valid_fe_def SMALL_PRIME_pos)

lemma row_holds_spec: "row_holds r w i \<longleftrightarrow> spec_row_satisfied r w i"
  by (simp add: row_holds_def spec_row_satisfied_def dot_product_sum fe_mul_def FieldElement_def)

lemma wf_simple_example: "wf_R1CS simple_example"
  by (simp add: wf_R1CS_def wf_matrix_def simple_example_def valid_fe_def SMALL_PRIME_def)

text \<open>
  C1: for a constraint system that satisfies its invariant and a witness of length
  \<open>num_variables\<close>, \<open>fromR1CS\<close> returns a QAP whose combined polynomials
  \<open>(A(x), B(x), C(x))\<close> for that witness satisfy \<open>A(k) * B(k) = C(k)\<close> at the evaluation
  point \<open>k\<close> exactly when row \<open>k - 1\<close> of the constraint system is satisfied; hence the
  identity holds at every \<open>k\<close> in \<open>1..num_constraints\<close> exactly when the witness
  satisfies the system, that is, when \<open>verify\<close> returns true.
\<close>

theorem qap_bridge:
  assumes wf: "wf_R1CS r" and nc: "r1cs_num_constraints r \<le> 2147483647"
    and len: "int (length w) = r1cs_num_variables r"
  shows "\<exists>qap A_x B_x C_x.
           fromR1CS r = Inr qap \<and> computePolynomials qap w = (A_x, B_x, C_x) \<and>
           (\<forall>i<nat (r1cs_num_constraints r).
              fe_mul (evaluate A_x (FieldElement (i + 1))) (evaluate B_x (FieldElement (i + 1)))
                = evaluate C_x (FieldElement (i + 1))
              \<longleftrightarrow> spec_row_satisfied r w i) \<and>
           ((\<forall>k\<in>{1..nat (r1cs_num_constraints r)}.
               fe_mul (evaluate A_x (FieldElement k)) (evaluate B_x (FieldElement k))
                 = evaluate C_x (FieldElement k))
            \<longleftrightarrow> (\<forall>i<nat (r1cs_num_constraints r). spec_row_satisfied r w i)) \<and>
           ((\<forall>k\<in>{1..nat (r1cs_num_constraints r)}.
               fe_mul (evaluate A_x (FieldElement k)) (evaluate B_x (FieldElement k))
                 = evaluate C_x (FieldElement k))
            \<longleftrightarrow> fst (r1cs_verify r w))"
proof -
  define m where "m = r1cs_num_constraints r"
  define nv where "nv = r1cs_num_variables r"
  define xs where "xs = evaluation_points m"
  from wf have wfA: "wf_matrix m nv (r1cs_A r)" and wfB: "wf_matrix m nv (r1cs_B r)"
    and wfC: "wf_matrix m nv (r1cs_C r)"
    by (simp_all add: wf_R1CS_def m_def nv_def)
  have nc': "m \<le> 2147483647" using nc by (simp add: m_def)
  define pa where "pa = (\<lambda>var. projr (interpolate xs (column (r1cs_A r) m var)))"
  define pb where "pb = (\<lambda>var. projr (interpolate xs (column (r1cs_B r) m var)))"
  define pc where "pc = (\<lambda>var. projr (interpolate xs (column (r1cs_C r) m var)))"
  have interp: "(\<exists>P. interpolate xs (column M m var) = Inr P) \<and>
      (\<forall>k<nat m. evaluate (projr (interpolate xs (column M m var))) (FieldElement (k + 1)) = M ! k ! var)"
    if "wf_matrix m nv M" "var < nat nv" for M var
    using interpolate_column [OF that nc'] unfolding xs_def by auto
  have ok: "\<forall>var\<in>set [0..<nat nv].
             (\<exists>P. interpolate xs (column (r1cs_A r) m var) = Inr P) \<and>
             (\<exists>P. interpolate xs (column (r1cs_B r) m var) = Inr P) \<and>
             (\<exists>P. interpolate xs (column (r1cs_C r) m var) = Inr P)"
    using interp wfA wfB wfC by simp
  define qap where "qap = \<lparr>qap_A_polys = map pa [0..<nat nv], qap_B_polys = map pb [0..<nat nv],
      qap_C_polys = map pc [0..<nat nv], qap_Z = target_polynomial xs, qap_num_variables = nv\<rparr>"
  have q: "fromR1CS r = Inr qap"
    unfolding fromR1CS_def Let_def
    using fromR1CS_loop_result [of "[0..<nat nv]" xs r, unfolded m_def [symmetric], OF ok]
    by (simp add: m_def [symmetric] nv_def [symmetric] xs_def [symmetric] qap_def pa_def pb_def pc_def)
  obtain A_x B_x C_x where c: "computePolynomials qap w = (A_x, B_x, C_x)"
    by (metis prod_cases3)
  have polys: "qap_A_polys qap ! i = pa i" "qap_B_polys qap ! i = pb i" "qap_C_polys qap ! i = pc i"
    if "i < nat nv" for i
    using that by (simp_all add: qap_def)
  have pf: "poly_fun (map to_Fp A_x) X = (\<Sum>i<nat nv. poly_fun (map to_Fp (pa i)) X * to_Fp (w ! i))"
      "poly_fun (map to_Fp B_x) X = (\<Sum>i<nat nv. poly_fun (map to_Fp (pb i)) X * to_Fp (w ! i))"
      "poly_fun (map to_Fp C_x) X = (\<Sum>i<nat nv. poly_fun (map to_Fp (pc i)) X * to_Fp (w ! i))"
    for X
    using computePolynomials_fun [where qap = qap and w = w and n = "nat nv" and X = X] c
    by (simp_all add: computePolynomials_def qap_def polys)
  have ev: "to_Fp (evaluate A_x (FieldElement (k + 1))) = to_Fp (dot_product (r1cs_A r ! k) w nv)"
           "to_Fp (evaluate B_x (FieldElement (k + 1))) = to_Fp (dot_product (r1cs_B r ! k) w nv)"
           "to_Fp (evaluate C_x (FieldElement (k + 1))) = to_Fp (dot_product (r1cs_C r ! k) w nv)"
    if k: "k < nat m" for k
  proof -
    have a: "poly_fun (map to_Fp (pa i)) (to_Fp (FieldElement (k + 1))) = to_Fp (r1cs_A r ! k ! i)"
      if "i < nat nv" for i
      using interp [OF wfA that] k unfolding pa_def to_Fp_evaluate [symmetric] by simp
    have b: "poly_fun (map to_Fp (pb i)) (to_Fp (FieldElement (k + 1))) = to_Fp (r1cs_B r ! k ! i)"
      if "i < nat nv" for i
      using interp [OF wfB that] k unfolding pb_def to_Fp_evaluate [symmetric] by simp
    have c: "poly_fun (map to_Fp (pc i)) (to_Fp (FieldElement (k + 1))) = to_Fp (r1cs_C r ! k ! i)"
      if "i < nat nv" for i
      using interp [OF wfC that] k unfolding pc_def to_Fp_evaluate [symmetric] by simp
    show "to_Fp (evaluate A_x (FieldElement (k + 1))) = to_Fp (dot_product (r1cs_A r ! k) w nv)"
      unfolding to_Fp_evaluate pf to_Fp_dot_product using a by simp
    show "to_Fp (evaluate B_x (FieldElement (k + 1))) = to_Fp (dot_product (r1cs_B r ! k) w nv)"
      unfolding to_Fp_evaluate pf to_Fp_dot_product using b by simp
    show "to_Fp (evaluate C_x (FieldElement (k + 1))) = to_Fp (dot_product (r1cs_C r ! k) w nv)"
      unfolding to_Fp_evaluate pf to_Fp_dot_product using c by simp
  qed
  have point: "fe_mul (evaluate A_x (FieldElement (k + 1))) (evaluate B_x (FieldElement (k + 1)))
                = evaluate C_x (FieldElement (k + 1))
              \<longleftrightarrow> spec_row_satisfied r w k" if k: "k < nat m" for k
  proof -
    let ?EA = "evaluate A_x (FieldElement (k + 1))"
    let ?EB = "evaluate B_x (FieldElement (k + 1))"
    let ?EC = "evaluate C_x (FieldElement (k + 1))"
    let ?DA = "dot_product (r1cs_A r ! k) w nv"
    let ?DB = "dot_product (r1cs_B r ! k) w nv"
    let ?DC = "dot_product (r1cs_C r ! k) w nv"
    have "fe_mul ?EA ?EB = ?EC \<longleftrightarrow> to_Fp (fe_mul ?EA ?EB) = to_Fp ?EC"
      by (rule to_Fp_eq_iff [symmetric]) simp_all
    also have "\<dots> \<longleftrightarrow> to_Fp ?EA * to_Fp ?EB = to_Fp ?EC"
      by (simp only: to_Fp_mul)
    also have "\<dots> \<longleftrightarrow> to_Fp ?DA * to_Fp ?DB = to_Fp ?DC"
      by (simp only: ev [OF k])
    also have "\<dots> \<longleftrightarrow> to_Fp (fe_mul ?DA ?DB) = to_Fp ?DC"
      by (simp only: to_Fp_mul)
    also have "\<dots> \<longleftrightarrow> fe_mul ?DA ?DB = ?DC"
      by (rule to_Fp_eq_iff) simp_all
    also have "\<dots> \<longleftrightarrow> row_holds r w k"
      by (simp add: row_holds_def nv_def)
    finally show ?thesis by (simp only: row_holds_spec)
  qed
  have shift: "(\<forall>k\<in>{1..nat m}. Q k) \<longleftrightarrow> (\<forall>i<nat m. Q (i + 1))" for Q :: "nat \<Rightarrow> bool"
  proof
    assume "\<forall>k\<in>{1..nat m}. Q k"
    then show "\<forall>i<nat m. Q (i + 1)" by simp
  next
    assume a: "\<forall>i<nat m. Q (i + 1)"
    show "\<forall>k\<in>{1..nat m}. Q k"
    proof
      fix k assume "k \<in> {1..nat m}"
      then have "k - 1 < nat m" "k = (k - 1) + 1" by auto
      with a show "Q k" by metis
    qed
  qed
  have all: "(\<forall>k\<in>{1..nat m}.
               fe_mul (evaluate A_x (FieldElement k)) (evaluate B_x (FieldElement k))
                 = evaluate C_x (FieldElement k))
            \<longleftrightarrow> (\<forall>i<nat m. spec_row_satisfied r w i)"
    unfolding shift using point by simp
  have ver: "fst (r1cs_verify r w) \<longleftrightarrow> (\<forall>i<nat m. spec_row_satisfied r w i)"
    using len by (auto simp: r1cs_verify_def verify_loop_fst row_holds_spec m_def)
  show ?thesis
    using q c point all ver unfolding m_def by blast
qed

theorem qap_bridge_witness:
  "wf_R1CS simple_example \<and> r1cs_num_constraints simple_example \<le> 2147483647 \<and>
   int (length [1, 3, 9 :: nat]) = r1cs_num_variables simple_example \<and>
   int (length [1, 3, 10 :: nat]) = r1cs_num_variables simple_example \<and>
   spec_row_satisfied simple_example [1, 3, 9] 0 \<and>
   \<not> spec_row_satisfied simple_example [1, 3, 10] 0 \<and>
   (\<exists>qap A_x B_x C_x.
      fromR1CS simple_example = Inr qap \<and> computePolynomials qap [1, 3, 9] = (A_x, B_x, C_x) \<and>
      fe_mul (evaluate A_x (FieldElement 1)) (evaluate B_x (FieldElement 1))
        = evaluate C_x (FieldElement 1)) \<and>
   (\<exists>qap A_x B_x C_x.
      fromR1CS simple_example = Inr qap \<and> computePolynomials qap [1, 3, 10] = (A_x, B_x, C_x) \<and>
      fe_mul (evaluate A_x (FieldElement 1)) (evaluate B_x (FieldElement 1))
        \<noteq> evaluate C_x (FieldElement 1))"
proof -
  have nc: "r1cs_num_constraints simple_example \<le> 2147483647"
    and l1: "int (length [1, 3, 9 :: nat]) = r1cs_num_variables simple_example"
    and l2: "int (length [1, 3, 10 :: nat]) = r1cs_num_variables simple_example"
    and z: "0 < nat (r1cs_num_constraints simple_example)"
    by (simp_all add: simple_example_def)
  have s1: "spec_row_satisfied simple_example [1, 3, 9] 0"
    and s2: "\<not> spec_row_satisfied simple_example [1, 3, 10] 0"
    by (simp_all add: simple_example_def spec_row_satisfied_def spec_dot_def SMALL_PRIME_def
        lessThan_nat_numeral lessThan_Suc)
  from qap_bridge [OF wf_simple_example nc l1] obtain qap A_x B_x C_x where
    a: "fromR1CS simple_example = Inr qap" "computePolynomials qap [1, 3, 9] = (A_x, B_x, C_x)"
    and p: "\<forall>i<nat (r1cs_num_constraints simple_example).
              fe_mul (evaluate A_x (FieldElement (i + 1))) (evaluate B_x (FieldElement (i + 1)))
                = evaluate C_x (FieldElement (i + 1))
              \<longleftrightarrow> spec_row_satisfied simple_example [1, 3, 9] i"
    by blast
  from p z s1 have "fe_mul (evaluate A_x (FieldElement (0 + 1))) (evaluate B_x (FieldElement (0 + 1)))
                = evaluate C_x (FieldElement (0 + 1))" by blast
  then have c1: "fe_mul (evaluate A_x (FieldElement 1)) (evaluate B_x (FieldElement 1))
                = evaluate C_x (FieldElement 1)" by simp
  from qap_bridge [OF wf_simple_example nc l2] obtain qap' A_x' B_x' C_x' where
    a': "fromR1CS simple_example = Inr qap'" "computePolynomials qap' [1, 3, 10] = (A_x', B_x', C_x')"
    and p': "\<forall>i<nat (r1cs_num_constraints simple_example).
              fe_mul (evaluate A_x' (FieldElement (i + 1))) (evaluate B_x' (FieldElement (i + 1)))
                = evaluate C_x' (FieldElement (i + 1))
              \<longleftrightarrow> spec_row_satisfied simple_example [1, 3, 10] i"
    by blast
  from p' z s2 have "fe_mul (evaluate A_x' (FieldElement (0 + 1))) (evaluate B_x' (FieldElement (0 + 1)))
                \<noteq> evaluate C_x' (FieldElement (0 + 1))" by blast
  then have c2: "fe_mul (evaluate A_x' (FieldElement 1)) (evaluate B_x' (FieldElement 1))
                \<noteq> evaluate C_x' (FieldElement 1)" by simp
  from wf_simple_example nc l1 l2 s1 s2 a c1 a' c2 show ?thesis by blast
qed

section \<open>Where point addition raises\<close>

text \<open>
  For points with stored coordinates, \<open>operator+\<close> raises in exactly one situation: both
  operands are the same non-infinity point and its \<open>y\<close> is zero. The chord branch is
  reached only with different \<open>x\<close>, and the tangent branch with \<open>y \<noteq> 0\<close> divides by
  \<open>2y \<noteq> 0\<close>.
\<close>

lemma fe_div_defined:
  assumes "valid_fe d" "d \<noteq> 0"
  shows "\<exists>c. fe_div a d = Inr c"
proof -
  from assms have "0 < d" "d < SMALL_PRIME" by (simp_all add: valid_fe_def)
  from fe_inverse_nonzero [OF this] show ?thesis by (auto simp: fe_div_def)
qed

lemma fe_div_zero: "fe_div a 0 = Inl Cannot_invert_zero"
  by (simp add: fe_div_def fe_inverse_def)

lemma fe_double_nonzero:
  assumes "valid_fe v" "v \<noteq> 0"
  shows "fe_mul v (FieldElement 2) \<noteq> 0"
proof
  assume "fe_mul v (FieldElement 2) = 0"
  then have "to_Fp (fe_mul v (FieldElement 2)) = 0" by (simp add: to_Fp_def)
  then have z: "to_Fp v * 2 = 0" by simp
  have "(of_nat 2147483648 :: Fp) = of_nat 1"
    unfolding of_nat_Fp_eq_iff by (simp add: SMALL_PRIME_def)
  then have h: "(2 :: Fp) * 1073741824 = 1" by simp
  have "to_Fp v = to_Fp v * (2 * 1073741824)" by (simp only: h mult_1_right)
  also have "\<dots> = (to_Fp v * 2) * 1073741824" by (simp only: mult.assoc)
  also have "\<dots> = 0" by (simp only: z mult_zero_left)
  finally have "to_Fp v = to_Fp 0" by (simp add: to_Fp_def)
  with assms(1) have "v = 0" by (intro to_Fp_inj) (simp_all add: valid_fe_def SMALL_PRIME_def)
  with assms(2) show False by simp
qed

lemma ec_add_raises_iff:
  assumes "valid_fe (getX p)" "valid_fe (getY p)" "valid_fe (getX q)" "valid_fe (getY q)"
  shows "(\<exists>e. ec_add cp p q = Inl e) \<longleftrightarrow>
         (\<not> isInfinity p \<and> \<not> isInfinity q \<and> getX p = getX q \<and> getY p = getY q \<and> getY p = 0)"
proof (cases "isInfinity p \<or> isInfinity q \<or> (getX p = getX q \<and> getY p \<noteq> getY q)")
  case True
  then show ?thesis by (auto simp: ec_add_def)
next
  case False
  then have ni: "\<not> isInfinity p" "\<not> isInfinity q" by simp_all
  show ?thesis
  proof (cases "getX p = getX q")
    case same: True
    with False have y: "getY p = getY q" by simp
    show ?thesis
    proof (cases "getY p = 0")
      case True
      have "fe_mul (getY p) (FieldElement 2) = 0" using True by (simp add: fe_mul_def FieldElement_def)
      then have "ec_add cp p q = Inl Cannot_invert_zero"
        using ni same y by (simp add: ec_add_def fe_div_zero)
      then show ?thesis using ni same y True by simp
    next
      case nz: False
      have "fe_mul (getY p) (FieldElement 2) \<noteq> 0" using assms(2) nz by (rule fe_double_nonzero)
      from fe_div_defined [OF _ this] obtain c where
        "fe_div (fe_add (fe_mul (fe_mul (getX p) (getX p)) (FieldElement 3)) (param_a cp))
                (fe_mul (getY p) (FieldElement 2)) = Inr c"
        by auto
      then have "\<exists>pt. ec_add cp p q = Inr pt"
        using ni same y by (simp add: ec_add_def Let_def)
      then show ?thesis using nz by auto
    qed
  next
    case diff: False
    have "fe_sub (getX q) (getX p) \<noteq> 0"
      using assms(3,1) diff by (intro fe_sub_nonzero) auto
    from fe_div_defined [OF _ this] obtain c where
      "fe_div (fe_sub (getY q) (getY p)) (fe_sub (getX q) (getX p)) = Inr c"
      by auto
    then have "\<exists>pt. ec_add cp p q = Inr pt"
      using ni diff by (simp add: ec_add_def Let_def)
    then show ?thesis using diff by auto
  qed
qed

end
